theory Spec2Isabelle
  imports Main "HOL-Library.Word"
begin

section \<open>JavaScript strings\<close>

text \<open>
  A JavaScript string is a sequence of UTF-16 code units; \<open>length\<close> is the
  \<^verbatim>\<open>.length\<close> of the source. Literals are written \<open>js ''...''\<close>.
\<close>

type_synonym jsstring = "16 word list"

definition js :: "string \<Rightarrow> jsstring" where
  "js s = map of_char s"

text \<open>
  \<^verbatim>\<open>String.prototype.trim\<close> removes WhiteSpace and LineTerminator code points
  from both ends (ECMAScript: TAB, VT, FF, SP, NBSP, ZWNBSP, the category Zs, and
  LF, CR, LS, PS).
\<close>

definition isWhiteSpace :: "16 word \<Rightarrow> bool" where
  "isWhiteSpace c =
     (c = 0x09 \<or> c = 0x0A \<or> c = 0x0B \<or> c = 0x0C \<or> c = 0x0D \<or> c = 0x20 \<or> c = 0xA0
      \<or> c = 0x1680 \<or> (0x2000 \<le> c \<and> c \<le> 0x200A) \<or> c = 0x2028 \<or> c = 0x2029
      \<or> c = 0x202F \<or> c = 0x205F \<or> c = 0x3000 \<or> c = 0xFEFF)"

definition trim :: "jsstring \<Rightarrow> jsstring" where
  "trim s = rev (dropWhile isWhiteSpace (rev (dropWhile isWhiteSpace s)))"

text \<open>\<^verbatim>\<open>s.split("\n")\<close> and \<^verbatim>\<open>lines.join("\n")\<close>.\<close>

fun split_nl :: "jsstring \<Rightarrow> jsstring list" where
  "split_nl [] = [[]]"
| "split_nl (c # cs) =
     (if c = 0x0A then [] # split_nl cs
      else (case split_nl cs of [] \<Rightarrow> [[c]] | l # ls \<Rightarrow> (c # l) # ls))"

fun join_nl :: "jsstring list \<Rightarrow> jsstring" where
  "join_nl [] = []"
| "join_nl [l] = l"
| "join_nl (l # m # ls) = l @ 0x0A # join_nl (m # ls)"

text \<open>\<^verbatim>\<open>s.startsWith(p)\<close> and \<^verbatim>\<open>s.includes(p)\<close>.\<close>

fun startsWith :: "jsstring \<Rightarrow> jsstring \<Rightarrow> bool" where
  "startsWith s [] = True"
| "startsWith [] (p # ps) = False"
| "startsWith (c # cs) (p # ps) = (c = p \<and> startsWith cs ps)"

fun jsIncludes :: "jsstring \<Rightarrow> jsstring \<Rightarrow> bool" where
  "jsIncludes [] p = (p = [])"
| "jsIncludes (c # cs) p = (startsWith (c # cs) p \<or> jsIncludes cs p)"

text \<open>\<^verbatim>\<open>s.slice(-n)\<close>: the last \<open>n\<close> code units, the whole string when it is shorter.\<close>

definition sliceLast :: "nat \<Rightarrow> jsstring \<Rightarrow> jsstring" where
  "sliceLast n s = drop (length s - n) s"

text \<open>Decimal rendering of an integer, as a template literal does it.\<close>

function digits :: "nat \<Rightarrow> jsstring" where
  "digits n = (if n < 10 then [0x30 + of_nat n] else digits (n div 10) @ [0x30 + of_nat (n mod 10)])"
  by pat_completeness auto
termination
  by (relation "measure (\<lambda>n. n)") auto

definition numberToString :: "int \<Rightarrow> jsstring" where
  "numberToString i = (if i < 0 then 0x2D # digits (nat (- i)) else digits (nat i))"

text \<open>
  \<^verbatim>\<open>Buffer.byteLength(s, "utf-8")\<close>: one byte below U+0080, two below U+0800, four for a
  surrogate pair, three for every other code unit (a lone surrogate is encoded as U+FFFD).
\<close>

definition isHighSurrogate :: "16 word \<Rightarrow> bool" where
  "isHighSurrogate c = (0xD800 \<le> c \<and> c \<le> 0xDBFF)"

definition isLowSurrogate :: "16 word \<Rightarrow> bool" where
  "isLowSurrogate c = (0xDC00 \<le> c \<and> c \<le> 0xDFFF)"

fun byteLength :: "jsstring \<Rightarrow> nat" where
  "byteLength [] = 0"
| "byteLength [c] = (if c < 0x80 then 1 else if c < 0x800 then 2 else 3)"
| "byteLength (c # d # cs) =
     (if c < 0x80 then 1 + byteLength (d # cs)
      else if c < 0x800 then 2 + byteLength (d # cs)
      else if isHighSurrogate c \<and> isLowSurrogate d then 4 + byteLength cs
      else 3 + byteLength (d # cs))"

section \<open>Constants (types.ts)\<close>

definition MAX_CONCURRENCY :: int where "MAX_CONCURRENCY = 8"
definition DEFAULT_CONCURRENCY :: int where "DEFAULT_CONCURRENCY = 4"
definition MAX_OUTPUT_BYTES :: nat where "MAX_OUTPUT_BYTES = 50 * 1024"
definition MAX_OUTPUT_LINES :: nat where "MAX_OUTPUT_LINES = 2000"

section \<open>Executor (executor.ts)\<close>

datatype role = User | Assistant | ToolResultRole

datatype part = TextPart jsstring | OtherPart

record Message =
  role :: role
  content :: "part list"
  stopReason :: "jsstring option"
  errorMessage :: "jsstring option"

text \<open>The inner loop of \<^verbatim>\<open>getFinalOutput\<close>: return at the first text part.\<close>

fun firstTextPart :: "part list \<Rightarrow> jsstring option" where
  "firstTextPart [] = None"
| "firstTextPart (TextPart t # ps) = Some t"
| "firstTextPart (OtherPart # ps) = firstTextPart ps"

text \<open>
  The outer loop, \<^verbatim>\<open>for (let i = messages.length - 1; i >= 0; i--)\<close>; the second
  argument is \<open>i + 1\<close>.
\<close>

fun scanMessages :: "Message list \<Rightarrow> nat \<Rightarrow> jsstring" where
  "scanMessages messages 0 = []"
| "scanMessages messages (Suc i) =
     (if role (messages ! i) = Assistant
      then (case firstTextPart (content (messages ! i)) of
              Some t \<Rightarrow> t
            | None \<Rightarrow> scanMessages messages i)
      else scanMessages messages i)"

definition getFinalOutput :: "Message list \<Rightarrow> jsstring" where
  "getFinalOutput messages = scanMessages messages (length messages)"

text \<open>
  \<^verbatim>\<open>truncateOutput\<close>. The byte loop halves the string while it is over the cap; on a
  string of one code unit \<^verbatim>\<open>slice(0)\<close> changes nothing, so the loop is modelled as a
  partial function: \<open>None\<close> is a loop that never ends.
\<close>

partial_function (option) halveWhileOver :: "nat \<Rightarrow> jsstring \<Rightarrow> jsstring option" where
  "halveWhileOver maxBytes result =
     (if byteLength result > maxBytes \<and> length result > 0
      then halveWhileOver maxBytes (drop (length result div 2) result)
      else Some result)"

definition keepLastLines :: "nat \<Rightarrow> jsstring list \<Rightarrow> jsstring list" where
  "keepLastLines maxLines lines =
     (if length lines > maxLines then drop (length lines - maxLines) lines else lines)"

definition truncateOutput :: "jsstring \<Rightarrow> nat \<Rightarrow> nat \<Rightarrow> (jsstring \<times> bool) option" where
  "truncateOutput output maxBytes maxLines =
     (let lines = split_nl output;
          truncated = (length lines > maxLines);
          result = join_nl (keepLastLines maxLines lines)
      in if byteLength result > maxBytes
         then (case halveWhileOver maxBytes result of
                 None \<Rightarrow> None
               | Some r \<Rightarrow> Some (r, True))
         else Some (result, truncated))"

text \<open>
  The parsed lines of the child's standard output. A line that is blank, is not JSON, or
  has another \<^verbatim>\<open>type\<close> is \<open>OtherEvent\<close>; the message of a \<^verbatim>\<open>message_end\<close> or
  \<^verbatim>\<open>tool_result_end\<close> event may be missing.
\<close>

datatype event =
    MessageEnd "Message option"
  | ToolExecutionStart
  | ToolExecutionEnd
  | ToolResultEnd "Message option"
  | OtherEvent

text \<open>\<^verbatim>\<open>rawMsg.stopReason === "error" && rawMsg.errorMessage\<close>\<close>

definition isApiError :: "Message \<Rightarrow> bool" where
  "isApiError msg =
     (stopReason msg = Some (js ''error'')
      \<and> (case errorMessage msg of None \<Rightarrow> False | Some m \<Rightarrow> m \<noteq> []))"

text \<open>
  What \<^verbatim>\<open>processLine\<close> accumulates for the result: the messages, the recorded API error
  and the turn count. The progress record it also fills is display only and is left out.
\<close>

record ExecState =
  messages :: "Message list"
  apiError :: jsstring
  turns :: nat

fun processLine :: "event \<Rightarrow> ExecState \<Rightarrow> ExecState" where
  "processLine (MessageEnd (Some msg)) st =
     (let st1 = st\<lparr>messages := messages st @ [msg]\<rparr>
      in if role msg = Assistant
         then st1\<lparr>turns := turns st1 + 1,
                  apiError := (if isApiError msg
                               then (case errorMessage msg of Some m \<Rightarrow> m | None \<Rightarrow> apiError st1)
                               else apiError st1)\<rparr>
         else st1)"
| "processLine (ToolResultEnd (Some msg)) st = st\<lparr>messages := messages st @ [msg]\<rparr>"
| "processLine ev st = st"

record ExecutorOptions =
  task :: jsstring
  cwd :: jsstring
  provider :: "jsstring option"
  model :: "jsstring option"
  tools :: "jsstring list option"
  systemPrompt :: "jsstring option"
  "context" :: "jsstring option"
  thinking :: "jsstring option"
  id' :: jsstring
  name :: "jsstring option"
  step :: "nat option"

record TaskResult =
  id' :: jsstring
  name :: "jsstring option"
  task :: jsstring
  model :: "jsstring option"
  exitCode :: int
  "output" :: jsstring
  stderr :: jsstring
  truncated :: bool
  error :: "jsstring option"
  aborted :: bool
  step :: "nat option"

text \<open>
  What the child process did: the events of its standard output, the exit code the
  promise resolves to (\<^verbatim>\<open>code ?? 0\<close>, or 1 when the spawn fails), its standard error,
  and whether the abort handler ran.
\<close>

record ChildRun =
  childEvents :: "event list"
  childExit :: int
  childStderr :: jsstring
  wasAborted :: bool

text \<open>\<^verbatim>\<open>runAgent\<close>, from the end of the child to the returned \<^verbatim>\<open>TaskResult\<close>.\<close>

definition runAgent :: "ExecutorOptions \<Rightarrow> ChildRun \<Rightarrow> TaskResult option" where
  "runAgent options child =
     (let st = fold processLine (childEvents child) \<lparr>messages = [], apiError = [], turns = 0\<rparr>;
          finalOutput = getFinalOutput (messages st)
      in case truncateOutput finalOutput MAX_OUTPUT_BYTES MAX_OUTPUT_LINES of
           None \<Rightarrow> None
         | Some (truncatedOutput, trunc) \<Rightarrow>
            (let result = \<lparr>TaskResult.id' = ExecutorOptions.id' options,
                           name = ExecutorOptions.name options,
                           task = ExecutorOptions.task options,
                           model = ExecutorOptions.model options,
                           exitCode = childExit child,
                           output = truncatedOutput,
                           stderr = childStderr child,
                           truncated = trunc,
                           error = None,
                           aborted = wasAborted child,
                           step = ExecutorOptions.step options\<rparr>;
                 result1 = (if exitCode result \<noteq> 0 \<and> \<not> aborted result
                            then result\<lparr>error := Some (if childStderr child \<noteq> [] then childStderr child
                                                        else js ''Exit code: '' @ numberToString (childExit child))\<rparr>
                            else result);
                 result2 = (if apiError st \<noteq> [] \<and> (case error result1 of None \<Rightarrow> True | Some e \<Rightarrow> e = [])
                            then result1\<lparr>error := Some (apiError st), exitCode := 1\<rparr>
                            else result1)
             in Some result2))"

text \<open>The number of newline code units of a string.\<close>

definition newlines :: "jsstring \<Rightarrow> nat" where
  "newlines s = length (filter (\<lambda>c. c = 0x0A) s)"

text \<open>An assistant message that has a text part, and the last text part of a content list.\<close>

definition hasText :: "Message \<Rightarrow> bool" where
  "hasText m = (role m = Assistant \<and> firstTextPart (content m) \<noteq> None)"

fun lastTextPart :: "part list \<Rightarrow> jsstring option" where
  "lastTextPart [] = None"
| "lastTextPart (TextPart t # ps) = (case lastTextPart ps of None \<Rightarrow> Some t | Some u \<Rightarrow> Some u)"
| "lastTextPart (OtherPart # ps) = lastTextPart ps"

text \<open>An event at which \<^verbatim>\<open>processLine\<close> records an API error.\<close>

definition recordsApiError :: "event \<Rightarrow> bool" where
  "recordsApiError e =
     (case e of MessageEnd (Some msg) \<Rightarrow> role msg = Assistant \<and> isApiError msg | _ \<Rightarrow> False)"

text \<open>Concrete executor inputs.\<close>

definition C9_message :: Message where
  "C9_message = \<lparr>role = Assistant, content = [TextPart (js ''first''), OtherPart, TextPart (js ''second'')],
                  stopReason = None, errorMessage = None\<rparr>"

definition C6_options :: ExecutorOptions where
  "C6_options = \<lparr>ExecutorOptions.task = js ''t'', cwd = js ''/'', provider = None, model = None, tools = None,
     systemPrompt = None, context = None, thinking = None, id' = js ''single'', name = None, step = None\<rparr>"

definition C6_error_message :: Message where
  "C6_error_message = \<lparr>role = Assistant, content = [], stopReason = Some (js ''error''),
                        errorMessage = Some (js ''401 unauthorized'')\<rparr>"

definition C6_child :: "event list \<Rightarrow> ChildRun" where
  "C6_child es = \<lparr>childEvents = es, childExit = 0, childStderr = [], wasAborted = False\<rparr>"

section \<open>Workspace (workspace.ts)\<close>

text \<open>The regular expression class \<^verbatim>\<open>\w\<close> (no unicode flag): ASCII letters, digits, underscore.\<close>

definition isWordChar :: "16 word \<Rightarrow> bool" where
  "isWordChar c =
     ((0x30 \<le> c \<and> c \<le> 0x39) \<or> (0x41 \<le> c \<and> c \<le> 0x5A) \<or> (0x61 \<le> c \<and> c \<le> 0x7A) \<or> c = 0x5F)"

text \<open>\<^verbatim>\<open>taskId.replace(/[^\w.-]/g, "_")\<close>\<close>

definition safeName :: "jsstring \<Rightarrow> jsstring" where
  "safeName taskId = map (\<lambda>c. if isWordChar c \<or> c = 0x2E \<or> c = 0x2D then c else 0x5F) taskId"

record Workspace =
  root :: jsstring
  tasksDir :: jsstring
  artifactsDir :: jsstring

datatype fileStatus = FileCompleted | FileFailed

text \<open>The object handed to \<^verbatim>\<open>JSON.stringify\<close>.\<close>

record TaskFile =
  file_id :: jsstring
  file_status :: fileStatus
  file_output :: jsstring
  file_timestamp :: nat

text \<open>
  \<^verbatim>\<open>path.join(workspace.tasksDir, `${safeName}.json`)\<close>. The directory is the one
  \<^verbatim>\<open>createWorkspace\<close> makes, itself the result of a \<^verbatim>\<open>path.join\<close> and so normalised and
  without a trailing separator; the file name holds no separator, so the join appends it
  after one.
\<close>

definition taskFilePath :: "Workspace \<Rightarrow> jsstring \<Rightarrow> jsstring" where
  "taskFilePath workspace taskId = tasksDir workspace @ js ''/'' @ safeName taskId @ js ''.json''"

text \<open>The file system is a map from paths to file contents; \<open>now\<close> is \<^verbatim>\<open>Date.now()\<close>.\<close>

definition writeTaskResult ::
  "nat \<Rightarrow> Workspace \<Rightarrow> jsstring \<Rightarrow> jsstring \<Rightarrow> fileStatus \<Rightarrow> (jsstring \<rightharpoonup> TaskFile) \<Rightarrow> (jsstring \<rightharpoonup> TaskFile)" where
  "writeTaskResult now workspace taskId out st fs =
     fs(taskFilePath workspace taskId \<mapsto>
          \<lparr>file_id = taskId, file_status = st, file_output = out, file_timestamp = now\<rparr>)"

section \<open>DAG engine (dag.ts)\<close>

datatype status =
  Pending | Blocked | Ready | Running | Completed | Failed | AwaitingApproval | Reviewing | Revising

text \<open>\<^verbatim>\<open>maxIterations\<close> is a number of the schema with no bounds; the model takes the integers.\<close>

record ReviewConfig =
  assignee :: jsstring
  task :: "jsstring option"
  maxIterations :: "int option"

record TeamTask =
  id' :: jsstring
  task :: jsstring
  assignee :: "jsstring option"
  depends :: "jsstring list option"
  requiresApproval :: bool
  review :: "ReviewConfig option"

record ReviewEntry =
  iteration :: int
  workerOutput :: jsstring
  reviewerOutput :: jsstring
  approved :: bool

text \<open>
  A node of the graph. The resolved assignee is left out: it only selects the settings
  of the agent that is run.
\<close>

record DagNode =
  task :: TeamTask
  dependsOn :: "jsstring list"
  dependedBy :: "jsstring list"
  status :: status
  result :: "TaskResult option"
  iteration :: "int option"
  reviewHistory :: "ReviewEntry list option"
  iterationResults :: "TaskResult list option"

text \<open>
  \<^verbatim>\<open>Map<string, DagNode>\<close>: the entries in insertion order. A node is an object the map
  refers to, so an assignment to a field of a node is an update of the map's entry.
\<close>

type_synonym dag = "(jsstring \<times> DagNode) list"

definition updateNode :: "jsstring \<Rightarrow> (DagNode \<Rightarrow> DagNode) \<Rightarrow> dag \<Rightarrow> dag" where
  "updateNode k f nodes = map (\<lambda>(k', n). if k' = k then (k', f n) else (k', n)) nodes"

text \<open>\<^verbatim>\<open>nodes.get(depId)?.status\<close>\<close>

definition statusOf :: "dag \<Rightarrow> jsstring \<Rightarrow> status option" where
  "statusOf nodes k = map_option DagNode.status (map_of nodes k)"

subsection \<open>Readiness\<close>

definition allDepsComplete :: "dag \<Rightarrow> DagNode \<Rightarrow> bool" where
  "allDepsComplete nodes node =
     list_all (\<lambda>depId. statusOf nodes depId = Some Completed) (DagNode.dependsOn node)"

definition anyDepFailed :: "dag \<Rightarrow> DagNode \<Rightarrow> bool" where
  "anyDepFailed nodes node =
     list_ex (\<lambda>depId. statusOf nodes depId = Some Failed) (DagNode.dependsOn node)"

text \<open>The body of the loop of \<^verbatim>\<open>updateReadyState\<close>, for one node.\<close>

definition readiness :: "dag \<Rightarrow> DagNode \<Rightarrow> DagNode" where
  "readiness nodes node =
     (if DagNode.status node \<noteq> Pending then node
      else if anyDepFailed nodes node then node\<lparr>DagNode.status := Blocked\<rparr>
      else if allDepsComplete nodes node then node\<lparr>DagNode.status := Ready\<rparr>
      else node)"

definition updateReadyState :: "dag \<Rightarrow> dag" where
  "updateReadyState nodes = fold (\<lambda>k ns. updateNode k (readiness ns) ns) (map fst nodes) nodes"

definition getReadyTasks :: "dag \<Rightarrow> (jsstring \<times> DagNode) list" where
  "getReadyTasks nodes = filter (\<lambda>(k, n). DagNode.status n = Ready) nodes"

definition isDagComplete :: "dag \<Rightarrow> bool" where
  "isDagComplete nodes =
     list_all (\<lambda>(k, n). DagNode.status n = Completed \<or> DagNode.status n = Failed
                         \<or> DagNode.status n = Blocked) nodes"

definition getPendingApproval :: "dag \<Rightarrow> (jsstring \<times> DagNode) option" where
  "getPendingApproval nodes = find (\<lambda>(k, n). DagNode.status n = AwaitingApproval) nodes"

subsection \<open>Review decisions\<close>

definition DEFAULT_MAX_ITERATIONS :: int where "DEFAULT_MAX_ITERATIONS = 3"

definition APPROVED :: jsstring where "APPROVED = js ''APPROVED''"
definition REVISION_NEEDED :: jsstring where "REVISION_NEEDED = js ''REVISION_NEEDED''"

record Decision =
  approved :: bool
  feedback :: jsstring

text \<open>
  The loop \<^verbatim>\<open>for (let i = lines.length - 1; i >= 0; i--)\<close> of \<^verbatim>\<open>parseReviewDecision\<close>; the
  second argument is \<open>i + 1\<close>, and \<open>None\<close> is the loop left without a return.
\<close>

fun scanMarker :: "jsstring list \<Rightarrow> nat \<Rightarrow> Decision option" where
  "scanMarker lines 0 = None"
| "scanMarker lines (Suc i) =
     (let line = trim (lines ! i)
      in if line = [] then scanMarker lines i
         else if line = APPROVED
         then Some \<lparr>Decision.approved = True, feedback = trim (join_nl (take i lines))\<rparr>
         else if line = REVISION_NEEDED
         then Some \<lparr>Decision.approved = False, feedback = trim (join_nl (take i lines))\<rparr>
         else None)"

text \<open>The decision by the words of the last 200 code units.\<close>

definition wordsDecision :: "(jsstring \<Rightarrow> jsstring) \<Rightarrow> jsstring \<Rightarrow> Decision" where
  "wordsDecision lower trimmed =
     (let lastChunk = lower (sliceLast 200 trimmed)
      in if jsIncludes lastChunk (js ''approved'') \<and> \<not> jsIncludes lastChunk (js ''not approved'')
            \<and> \<not> jsIncludes lastChunk (js ''revision'')
         then \<lparr>Decision.approved = True, feedback = trimmed\<rparr>
         else \<lparr>Decision.approved = False, feedback = trimmed\<rparr>)"

text \<open>
  \<^verbatim>\<open>parseReviewDecision\<close>. \<^verbatim>\<open>String.prototype.toLowerCase\<close> is the language's, with the
  Unicode case mapping behind it; the model takes it as the parameter \<open>lower\<close>.
\<close>

definition parseReviewDecision :: "(jsstring \<Rightarrow> jsstring) \<Rightarrow> jsstring \<Rightarrow> Decision" where
  "parseReviewDecision lower out =
     (let trimmed = trim out;
          lines = split_nl trimmed
      in case scanMarker lines (length lines) of
           Some d \<Rightarrow> d
         | None \<Rightarrow> wordsDecision lower trimmed)"

text \<open>Lower case on ASCII letters, which is what \<^verbatim>\<open>toLowerCase\<close> does on ASCII strings.\<close>

definition asciiLower :: "jsstring \<Rightarrow> jsstring" where
  "asciiLower s = map (\<lambda>c. if 0x41 \<le> c \<and> c \<le> 0x5A then c + 0x20 else c) s"

definition C4_input :: jsstring where
  "C4_input = js ''no revision needed\<newline> APPROVED''"

subsection \<open>The review cycle\<close>

text \<open>
  What the engine gets from outside. Every query advances a clock, and an answer may
  depend on the clock: \<open>agent n call\<close> is the result of the \<^verbatim>\<open>runAgent\<close> call made at time
  \<open>n\<close> (the prompt and the settings it is given do not appear: any result may come
  back), \<open>signalAborted n\<close> is \<^verbatim>\<open>signal?.aborted\<close> read at time \<open>n\<close>, and the approval
  callback, when there is one, answers with a decision and an optional feedback.
\<close>

datatype agentCall =
    WorkerCall jsstring
  | ReviewCall jsstring int
  | RevisionCall jsstring int

record DagEnv =
  agent :: "nat \<Rightarrow> agentCall \<Rightarrow> TaskResult"
  signalAborted :: "nat \<Rightarrow> bool"
  onApprovalNeeded :: "(nat \<Rightarrow> jsstring \<Rightarrow> jsstring \<Rightarrow> bool \<times> jsstring option) option"
  maxConcurrency :: int
  toLowerCase :: "jsstring \<Rightarrow> jsstring"

text \<open>\<^verbatim>\<open>result.exitCode !== 0 || result.aborted\<close>\<close>

definition runFailed :: "TaskResult \<Rightarrow> bool" where
  "runFailed r = (TaskResult.exitCode r \<noteq> 0 \<or> TaskResult.aborted r)"

text \<open>
  The ways \<^verbatim>\<open>runReviewCycle\<close> is left: the loop condition fails, the abort signal is seen
  at the head of the loop, the reviewer run fails, the review ends (approved, or the last
  iteration), the revision run fails; \<open>Threw\<close> is a \<^verbatim>\<open>TypeError\<close> on a missing list.
\<close>

datatype reviewExit = LoopEnded | AbortSeen | ReviewerFailed | ReviewDone | RevisionFailed | Threw

text \<open>The node under review, all results so far, and the clock.\<close>

type_synonym rstate = "DagNode \<times> TaskResult list \<times> nat"

text \<open>One pass through the body of \<^verbatim>\<open>while (node.iteration <= maxIter)\<close>; \<open>None\<close> is the end of the body.\<close>

definition reviewIteration :: "DagEnv \<Rightarrow> int \<Rightarrow> rstate \<Rightarrow> reviewExit option \<times> rstate" where
  "reviewIteration env maxIter s =
     (case s of (node, rs, clk) \<Rightarrow>
       (case DagNode.iteration node of
          None \<Rightarrow> (Some LoopEnded, s)
        | Some it \<Rightarrow>
           if \<not> it \<le> maxIter then (Some LoopEnded, s)
           else if signalAborted env clk then (Some AbortSeen, (node, rs, clk + 1))
           else
            (case DagNode.reviewHistory node of
               None \<Rightarrow> (Some Threw, (node, rs, clk + 1))
             | Some hist \<Rightarrow>
                (let workerOut = (case DagNode.result node of None \<Rightarrow> [] | Some r \<Rightarrow> TaskResult.output r);
                     taskId = TeamTask.id' (DagNode.task node);
                     reviewResult = agent env (clk + 1) (ReviewCall taskId it)
                 in case DagNode.iterationResults node of
                      None \<Rightarrow> (Some Threw, (node\<lparr>DagNode.status := Reviewing\<rparr>, rs, clk + 2))
                    | Some irs \<Rightarrow>
                       (let node2 = node\<lparr>DagNode.status := Reviewing,
                                         DagNode.iterationResults := Some (irs @ [reviewResult])\<rparr>;
                            rs2 = rs @ [reviewResult]
                        in if runFailed reviewResult
                           then (Some ReviewerFailed, (node2\<lparr>DagNode.status := Completed\<rparr>, rs2, clk + 2))
                           else
                            (let decision = parseReviewDecision (toLowerCase env) (TaskResult.output reviewResult);
                                 node3 = node2\<lparr>DagNode.reviewHistory :=
                                           Some (hist @ [\<lparr>ReviewEntry.iteration = it, workerOutput = workerOut,
                                                          reviewerOutput = TaskResult.output reviewResult,
                                                          approved = Decision.approved decision\<rparr>])\<rparr>
                             in if Decision.approved decision \<or> it \<ge> maxIter
                                then (Some ReviewDone, (node3\<lparr>DagNode.status := Completed\<rparr>, rs2, clk + 2))
                                else
                                 (let node4 = node3\<lparr>DagNode.iteration := Some (it + 1),
                                                   DagNode.status := Revising\<rparr>;
                                      revisionResult = agent env (clk + 2) (RevisionCall taskId (it + 1));
                                      node5 = node4\<lparr>DagNode.iterationResults :=
                                                Some (irs @ [reviewResult, revisionResult])\<rparr>;
                                      rs3 = rs2 @ [revisionResult]
                                  in if runFailed revisionResult
                                     then (Some RevisionFailed,
                                           (node5\<lparr>DagNode.status := Failed, DagNode.result := Some revisionResult\<rparr>,
                                            rs3, clk + 3))
                                     else (None, (node5\<lparr>DagNode.result := Some revisionResult\<rparr>, rs3, clk + 3)))))))))"

text \<open>The iterations that are left before the loop condition fails.\<close>

definition iterationsLeft :: "int \<Rightarrow> rstate \<Rightarrow> nat" where
  "iterationsLeft maxIter s =
     (case DagNode.iteration (fst s) of None \<Rightarrow> 0 | Some it \<Rightarrow> nat (maxIter + 1 - it))"

lemma reviewIteration_decreases:
  "reviewIteration env maxIter s = (None, s') \<Longrightarrow> iterationsLeft maxIter s' < iterationsLeft maxIter s"
  by (cases s)
     (auto simp: reviewIteration_def iterationsLeft_def Let_def split: option.splits if_splits)

function reviewLoop :: "DagEnv \<Rightarrow> int \<Rightarrow> rstate \<Rightarrow> reviewExit \<times> rstate" where
  "reviewLoop env maxIter s =
     (case reviewIteration env maxIter s of
        (Some e, s') \<Rightarrow> (e, s')
      | (None, s') \<Rightarrow> reviewLoop env maxIter s')"
  by pat_completeness auto
termination
  by (relation "measure (\<lambda>(env, maxIter, s). iterationsLeft maxIter s)")
     (auto simp: reviewIteration_decreases)

text \<open>The equation of the loop is used by hand: as a rewrite rule it unfolds without end.\<close>

declare reviewLoop.simps [simp del]

text \<open>\<^verbatim>\<open>runReviewCycle\<close>: the defaults, then the loop.\<close>

definition runReviewCycle :: "DagEnv \<Rightarrow> ReviewConfig \<Rightarrow> rstate \<Rightarrow> reviewExit \<times> rstate" where
  "runReviewCycle env rv s =
     (case s of (node, rs, clk) \<Rightarrow>
       (let maxIter = (case ReviewConfig.maxIterations rv of None \<Rightarrow> DEFAULT_MAX_ITERATIONS | Some m \<Rightarrow> m);
            node1 = (if (case DagNode.iteration node of None \<Rightarrow> True | Some it \<Rightarrow> it = 0)
                     then node\<lparr>DagNode.iteration := Some 1\<rparr> else node);
            node2 = (case DagNode.reviewHistory node1 of
                       None \<Rightarrow> node1\<lparr>DagNode.reviewHistory := Some []\<rparr> | Some h \<Rightarrow> node1);
            node3 = (case DagNode.iterationResults node2 of
                       None \<Rightarrow> node2\<lparr>DagNode.iterationResults := Some []\<rparr> | Some h \<Rightarrow> node2)
        in reviewLoop env maxIter (node3, rs, clk)))"

subsection \<open>The main loop\<close>

text \<open>The branch of \<^verbatim>\<open>for (const { taskId, result } of batchResults)\<close> for one node.\<close>

definition processNode :: "DagEnv \<Rightarrow> TaskResult \<Rightarrow> rstate \<Rightarrow> rstate" where
  "processNode env res s =
     (case s of (node, rs, clk) \<Rightarrow>
       (let node1 = node\<lparr>DagNode.result := Some res\<rparr>;
            rs1 = rs @ [res]
        in if runFailed res then (node1\<lparr>DagNode.status := Failed\<rparr>, rs1, clk)
           else if TeamTask.requiresApproval (DagNode.task node1)
           then (node1\<lparr>DagNode.status := AwaitingApproval\<rparr>, rs1, clk)
           else (case TeamTask.review (DagNode.task node1) of
                   Some rv \<Rightarrow>
                     snd (runReviewCycle env rv
                            (node1\<lparr>DagNode.iteration := Some 1, DagNode.reviewHistory := Some [],
                                   DagNode.iterationResults := Some [res]\<rparr>, rs1, clk))
                 | None \<Rightarrow> (node1\<lparr>DagNode.status := Completed\<rparr>, rs1, clk))))"

text \<open>
  The state of a run: the nodes, \<^verbatim>\<open>allResults\<close>, the clock, and \<open>started\<close>, the ids of the
  nodes the loop has marked \<^verbatim>\<open>running\<close>, in order. The progress map is display only and is
  left out.
\<close>

record DagState =
  nodes :: dag
  allResults :: "TaskResult list"
  clock :: nat
  started :: "jsstring list"

text \<open>
  \<^verbatim>\<open>nodes.get(taskId)!\<close>: the ids of a batch are keys of the map, which \<^verbatim>\<open>buildDag\<close> fills
  with each task under its id; for a key that is missing the state is left as it is.
\<close>

definition processResult :: "DagEnv \<Rightarrow> jsstring \<times> TaskResult \<Rightarrow> DagState \<Rightarrow> DagState" where
  "processResult env tr s =
     (case tr of (taskId, res) \<Rightarrow>
       (case map_of (nodes s) taskId of
          None \<Rightarrow> s
        | Some node \<Rightarrow>
           (case processNode env res (node, allResults s, clock s) of
              (node', rs', clk') \<Rightarrow>
                s\<lparr>nodes := updateNode taskId (\<lambda>n. node') (nodes s), allResults := rs', clock := clk'\<rparr>)))"

text \<open>\<^verbatim>\<open>xs.slice(0, k)\<close>: a negative \<open>k\<close> counts from the end.\<close>

definition sliceTo :: "'a list \<Rightarrow> int \<Rightarrow> 'a list" where
  "sliceTo xs k = (if 0 \<le> k then take (nat k) xs else take (length xs - nat (- k)) xs)"

text \<open>The agent runs of a batch; each is a query of its own.\<close>

fun runBatchAgents :: "DagEnv \<Rightarrow> nat \<Rightarrow> jsstring list \<Rightarrow> (jsstring \<times> TaskResult) list" where
  "runBatchAgents env clk [] = []"
| "runBatchAgents env clk (taskId # rest) =
     (taskId, agent env clk (WorkerCall taskId)) # runBatchAgents env (clk + 1) rest"

record DagExecutionResult =
  results :: "TaskResult list"
  aborted :: bool

text \<open>The return after the loop: \<^verbatim>\<open>{ results: allResults, aborted: signal?.aborted ?? false }\<close>.\<close>

definition finalReturn :: "DagEnv \<Rightarrow> DagState \<Rightarrow> DagExecutionResult option \<times> DagState" where
  "finalReturn env s =
     (Some \<lparr>DagExecutionResult.results = allResults s, aborted = signalAborted env (clock s)\<rparr>,
      s\<lparr>clock := clock s + 1\<rparr>)"

text \<open>From \<^verbatim>\<open>const readyTasks = getReadyTasks(nodes)\<close> to the end of the loop body.\<close>

definition runBatch :: "DagEnv \<Rightarrow> DagState \<Rightarrow> DagExecutionResult option \<times> DagState" where
  "runBatch env s =
     (let readyTasks = getReadyTasks (nodes s)
      in if readyTasks = [] then finalReturn env s
         else
          (let batch = sliceTo readyTasks (DagEnv.maxConcurrency env);
               nodes1 = fold (\<lambda>(k, n) ns. updateNode k (\<lambda>m. m\<lparr>DagNode.status := Running\<rparr>) ns) batch (nodes s);
               ids = map (\<lambda>(k, n). TeamTask.id' (DagNode.task n)) batch;
               batchResults = runBatchAgents env (clock s) ids;
               s1 = s\<lparr>nodes := nodes1, clock := clock s + length batch, started := started s @ ids\<rparr>;
               s2 = fold (processResult env) batchResults s1
           in (None, s2\<lparr>nodes := updateReadyState (nodes s2)\<rparr>)))"

text \<open>The text a rejected plan adds to the task.\<close>

definition withFeedback :: "jsstring option \<Rightarrow> TeamTask \<Rightarrow> TeamTask" where
  "withFeedback fb t =
     (case fb of
        None \<Rightarrow> t
      | Some f \<Rightarrow>
         if f = [] then t
         else t\<lparr>TeamTask.task := TeamTask.task t
                   @ js ''\<newline>\<newline>[FEEDBACK - your previous plan was rejected]: '' @ f
                   @ js ''\<newline>\<newline>Please revise your plan based on this feedback.''\<rparr>)"

definition approve :: "jsstring \<Rightarrow> DagState \<Rightarrow> DagExecutionResult option \<times> DagState" where
  "approve k s =
     (None, s\<lparr>nodes := updateReadyState (updateNode k (\<lambda>n. n\<lparr>DagNode.status := Completed\<rparr>) (nodes s))\<rparr>)"

text \<open>One pass through \<^verbatim>\<open>while (!isDagComplete(nodes))\<close>; \<open>None\<close> is the end of the body.\<close>

definition dagIteration :: "DagEnv \<Rightarrow> DagState \<Rightarrow> DagExecutionResult option \<times> DagState" where
  "dagIteration env s =
     (if isDagComplete (nodes s) then finalReturn env s
      else if signalAborted env (clock s)
      then (Some \<lparr>DagExecutionResult.results = allResults s, aborted = True\<rparr>, s\<lparr>clock := clock s + 1\<rparr>)
      else
       (let s0 = s\<lparr>clock := clock s + 1\<rparr>
        in case getPendingApproval (nodes s0) of
             None \<Rightarrow> runBatch env s0
           | Some (k, approvalNode) \<Rightarrow>
              (case onApprovalNeeded env of
                 None \<Rightarrow> approve k s0
               | Some callback \<Rightarrow>
                  (let plan = (case DagNode.result approvalNode of None \<Rightarrow> [] | Some r \<Rightarrow> TaskResult.output r);
                       decision = callback (clock s0) (TeamTask.id' (DagNode.task approvalNode)) plan;
                       s1 = s0\<lparr>clock := clock s0 + 1\<rparr>
                   in if fst decision then approve k s1
                      else runBatch env
                             (s1\<lparr>nodes := updateNode k
                                   (\<lambda>n. n\<lparr>DagNode.status := Ready,
                                           DagNode.task := withFeedback (snd decision) (DagNode.task n)\<rparr>)
                                   (nodes s1)\<rparr>)))))"

text \<open>
  The loop may go on for ever (an approval that is always refused), so it is run with
  fuel: \<open>None\<close> is a loop that has not returned within the given number of passes.
\<close>

fun runDag :: "DagEnv \<Rightarrow> nat \<Rightarrow> DagState \<Rightarrow> DagExecutionResult option \<times> DagState" where
  "runDag env 0 s = (None, s)"
| "runDag env (Suc n) s =
     (case dagIteration env s of
        (Some r, s') \<Rightarrow> (Some r, s')
      | (None, s') \<Rightarrow> runDag env n s')"

definition initialState :: "dag \<Rightarrow> DagState" where
  "initialState ns = \<lparr>nodes = ns, allResults = [], clock = 0, started = []\<rparr>"

definition executeDag :: "DagEnv \<Rightarrow> nat \<Rightarrow> dag \<Rightarrow> DagExecutionResult option \<times> DagState" where
  "executeDag env fuel ns = runDag env fuel (initialState ns)"

section \<open>Dispatcher (index.ts)\<close>

text \<open>
  The sources hold no \<^verbatim>\<open>agents.ts\<close> and no \<^verbatim>\<open>parallel.ts\<close>. An agent definition is a
  record of the fields the dispatcher reads; \<^verbatim>\<open>findAgent(agents, name)\<close>, the rendered
  agent list and the engines behind race, parallel and team mode are parameters.
\<close>

record AgentConfig =
  name :: jsstring
  model :: "jsstring option"
  tools :: "jsstring list option"
  systemPrompt :: "jsstring option"
  thinking :: "jsstring option"

record Overrides =
  provider :: "jsstring option"
  model :: "jsstring option"
  tools :: "jsstring list option"
  systemPrompt :: "jsstring option"
  thinking :: "jsstring option"

record Settings = Overrides +
  agentConfig :: "AgentConfig option"

text \<open>A string that is present and not empty, as a JavaScript condition reads it.\<close>

definition truthy :: "jsstring option \<Rightarrow> bool" where
  "truthy s = (case s of None \<Rightarrow> False | Some v \<Rightarrow> v \<noteq> [])"

text \<open>\<^verbatim>\<open>a || b\<close> on strings of which the second is never empty.\<close>

definition orElse :: "jsstring option \<Rightarrow> jsstring \<Rightarrow> jsstring" where
  "orElse s d = (case s of None \<Rightarrow> d | Some v \<Rightarrow> if v = [] then d else v)"

definition withoutAgent :: "Overrides \<Rightarrow> Settings" where
  "withoutAgent ov =
     \<lparr>Overrides.provider = Overrides.provider ov, model = Overrides.model ov, tools = Overrides.tools ov,
      systemPrompt = Overrides.systemPrompt ov, thinking = Overrides.thinking ov,
      agentConfig = None\<rparr>"

definition nullish :: "'a option \<Rightarrow> 'a option \<Rightarrow> 'a option" where
  "nullish a b = (case a of None \<Rightarrow> b | Some v \<Rightarrow> Some v)"

definition resolveAgentSettings ::
  "(jsstring \<Rightarrow> AgentConfig option) \<Rightarrow> jsstring option \<Rightarrow> Overrides \<Rightarrow> Settings" where
  "resolveAgentSettings lookup agentName ov =
     (case agentName of
        None \<Rightarrow> withoutAgent ov
      | Some n \<Rightarrow>
         (if n = [] then withoutAgent ov
          else (case lookup n of
                  None \<Rightarrow> withoutAgent ov
                | Some cfg \<Rightarrow>
                    \<lparr>Overrides.provider = Overrides.provider ov,
                     model = nullish (Overrides.model ov) (AgentConfig.model cfg),
                     tools = nullish (Overrides.tools ov) (AgentConfig.tools cfg),
                     systemPrompt = nullish (Overrides.systemPrompt ov) (AgentConfig.systemPrompt cfg),
                     thinking = nullish (Overrides.thinking ov) (AgentConfig.thinking cfg),
                     agentConfig = Some cfg\<rparr>)))"

text \<open>\<^verbatim>\<open>generateTaskId\<close>: the name is sanitized with \<^verbatim>\<open>/[^\w-]/g\<close> and cut to 20 code units.\<close>

definition generateTaskId :: "nat \<Rightarrow> jsstring option \<Rightarrow> jsstring" where
  "generateTaskId index nm =
     (let suffix = (if truthy nm
                    then take 20 (map (\<lambda>c. if isWordChar c \<or> c = 0x2D then c else 0x5F) (orElse nm []))
                    else js ''task_'' @ digits index)
      in digits index @ js ''-'' @ suffix)"

record ChainStep =
  task :: jsstring
  agent :: "jsstring option"
  provider :: "jsstring option"
  model :: "jsstring option"
  tools :: "jsstring list option"
  systemPrompt :: "jsstring option"
  thinking :: "jsstring option"

record TaskItem =
  task :: jsstring
  name :: "jsstring option"
  agent :: "jsstring option"

record RaceConfig =
  task :: jsstring
  models :: "jsstring list"

text \<open>The team configuration; of a member only the role is kept.\<close>

record TeamConfig =
  objective :: jsstring
  members :: "jsstring list"
  tasks :: "TeamTask list option"
  maxConcurrency :: "int option"

record ParallelParams =
  agentScope :: "jsstring option"
  task :: "jsstring option"
  agent :: "jsstring option"
  provider :: "jsstring option"
  model :: "jsstring option"
  tools :: "jsstring list option"
  systemPrompt :: "jsstring option"
  thinking :: "jsstring option"
  tasks :: "TaskItem list option"
  maxConcurrency :: "int option"
  chain :: "ChainStep list option"
  race :: "RaceConfig option"
  team :: "TeamConfig option"
  cwd :: "jsstring option"

datatype mode = ModeSingle | ModeParallel | ModeChain | ModeRace | ModeTeam

text \<open>
  The tool response: the text of its one content item, the details (the usage totals and
  the progress list are left out) and \<^verbatim>\<open>isError\<close>, false when the source leaves it out.
\<close>

record Response =
  "text" :: jsstring
  mode :: mode
  results :: "TaskResult list"
  totalDurationMs :: nat
  isError :: bool

text \<open>
  What a dispatcher call gets from outside: the discovered agents, the clock
  (\<open>elapsed\<close> is \<^verbatim>\<open>Date.now() - startTime\<close> when the details are made), the agent executor
  (the result of \<^verbatim>\<open>await runAgent(options)\<close>), and the three engines that are not modelled.
  Every function returns, beside the response, the executor calls it made, in order.
\<close>

record DispatchEnv =
  findAgent :: "jsstring \<Rightarrow> AgentConfig option"
  agentList :: jsstring
  ctxCwd :: jsstring
  elapsed :: nat
  executor :: "ExecutorOptions \<Rightarrow> TaskResult"
  raceMode :: "ParallelParams \<Rightarrow> Response \<times> ExecutorOptions list"
  parallelMode :: "ParallelParams \<Rightarrow> Response \<times> ExecutorOptions list"
  teamMode :: "ParallelParams \<Rightarrow> Response \<times> ExecutorOptions list"

definition hasChain :: "ParallelParams \<Rightarrow> bool" where
  "hasChain params = (case chain params of None \<Rightarrow> False | Some c \<Rightarrow> c \<noteq> [])"

definition hasRace :: "ParallelParams \<Rightarrow> bool" where
  "hasRace params = (race params \<noteq> None)"

definition hasTasks :: "ParallelParams \<Rightarrow> bool" where
  "hasTasks params = (case tasks params of None \<Rightarrow> False | Some ts \<Rightarrow> ts \<noteq> [])"

definition hasSingle :: "ParallelParams \<Rightarrow> bool" where
  "hasSingle params = (case ParallelParams.task params of None \<Rightarrow> False | Some t \<Rightarrow> length (trim t) > 0)"

definition hasTeam :: "ParallelParams \<Rightarrow> bool" where
  "hasTeam params = (team params \<noteq> None)"

definition modeCount :: "ParallelParams \<Rightarrow> nat" where
  "modeCount params =
     of_bool (hasChain params) + of_bool (hasRace params) + of_bool (hasTasks params)
     + of_bool (hasSingle params) + of_bool (hasTeam params)"

definition scopeOf :: "ParallelParams \<Rightarrow> jsstring" where
  "scopeOf params = (case agentScope params of None \<Rightarrow> js ''user'' | Some s \<Rightarrow> s)"

definition availableAgents :: "DispatchEnv \<Rightarrow> ParallelParams \<Rightarrow> jsstring" where
  "availableAgents env params =
     js ''\<newline>\<newline>Available agents ['' @ scopeOf params @ js '']: '' @ agentList env"

definition makeDetails :: "DispatchEnv \<Rightarrow> mode \<Rightarrow> TaskResult list \<Rightarrow> jsstring \<Rightarrow> bool \<Rightarrow> Response" where
  "makeDetails env m rs txt err =
     \<lparr>text = txt, mode = m, results = rs, totalDurationMs = elapsed env, isError = err\<rparr>"

definition workingDir :: "DispatchEnv \<Rightarrow> ParallelParams \<Rightarrow> jsstring" where
  "workingDir env params = (case cwd params of None \<Rightarrow> ctxCwd env | Some d \<Rightarrow> if d = [] then ctxCwd env else d)"

subsection \<open>Single mode\<close>

definition singleMode :: "DispatchEnv \<Rightarrow> ParallelParams \<Rightarrow> Response \<times> ExecutorOptions list" where
  "singleMode env params =
     (let resolved = resolveAgentSettings (findAgent env) (ParallelParams.agent params)
                       \<lparr>Overrides.provider = ParallelParams.provider params, model = ParallelParams.model params,
                        tools = ParallelParams.tools params, systemPrompt = ParallelParams.systemPrompt params,
                        thinking = ParallelParams.thinking params\<rparr>
      in if truthy (ParallelParams.agent params) \<and> agentConfig resolved = None
         then (makeDetails env ModeSingle []
                 (js ''Unknown agent: '' @ orElse (ParallelParams.agent params) [] @ availableAgents env params) False,
               [])
         else
          (let options = \<lparr>ExecutorOptions.task = orElse (ParallelParams.task params) [],
                          cwd = workingDir env params,
                          provider = Overrides.provider resolved,
                          model = Overrides.model resolved,
                          tools = Overrides.tools resolved,
                          systemPrompt = Overrides.systemPrompt resolved,
                          context = None,
                          thinking = Overrides.thinking resolved,
                          id' = js ''single'',
                          name = Some (orElse (map_option AgentConfig.name (agentConfig resolved)) (js ''single'')),
                          step = None\<rparr>;
               result = executor env options
           in (makeDetails env ModeSingle [result] (orElse (Some (output result)) (js ''(no output)'')) False,
               [options])))"

subsection \<open>Chain mode\<close>

text \<open>
  \<^verbatim>\<open>step.task.replace(/\{previous\}/g, previousOutput)\<close>. The second argument of
  \<^verbatim>\<open>replace\<close> is a replacement pattern: in it \<^verbatim>\<open>$$\<close> stands for a dollar sign,
  \<^verbatim>\<open>$&\<close> for the matched text, \<^verbatim>\<open>$`\<close> and \<^verbatim>\<open>$'\<close> for the text before and after the
  match; the expression has no capture group, so every other \<^verbatim>\<open>$\<close> stands for itself.
\<close>

definition PREVIOUS :: jsstring where
  "PREVIOUS = js ''{previous}''"

fun expandReplacement :: "jsstring \<Rightarrow> jsstring \<Rightarrow> jsstring \<Rightarrow> jsstring \<Rightarrow> jsstring" where
  "expandReplacement matched before after [] = []"
| "expandReplacement matched before after [c] = [c]"
| "expandReplacement matched before after (c # d # r) =
     (if c = 0x24 \<and> d = 0x24 then 0x24 # expandReplacement matched before after r
      else if c = 0x24 \<and> d = 0x26 then matched @ expandReplacement matched before after r
      else if c = 0x24 \<and> d = 0x60 then before @ expandReplacement matched before after r
      else if c = 0x24 \<and> d = 0x27 then after @ expandReplacement matched before after r
      else c # expandReplacement matched before after (d # r))"

text \<open>The global replace; \<open>before\<close> is the part of the subject already passed.\<close>

function replaceFrom :: "jsstring \<Rightarrow> jsstring \<Rightarrow> jsstring \<Rightarrow> jsstring" where
  "replaceFrom replacement before [] = []"
| "replaceFrom replacement before (c # cs) =
     (if startsWith (c # cs) PREVIOUS
      then expandReplacement PREVIOUS before (drop (length PREVIOUS) (c # cs)) replacement
           @ replaceFrom replacement (before @ PREVIOUS) (drop (length PREVIOUS) (c # cs))
      else c # replaceFrom replacement (before @ [c]) cs)"
  by pat_completeness auto
termination
  by (relation "measure (\<lambda>(r, b, s). length s)") (auto simp: PREVIOUS_def js_def)

definition replacePrevious :: "jsstring \<Rightarrow> jsstring \<Rightarrow> jsstring" where
  "replacePrevious taskText previousOutput = replaceFrom previousOutput [] taskText"

text \<open>Every occurrence of \<^verbatim>\<open>{previous}\<close> replaced by a text taken as it is.\<close>

function substitutePrevious :: "jsstring \<Rightarrow> jsstring \<Rightarrow> jsstring" where
  "substitutePrevious replacement [] = []"
| "substitutePrevious replacement (c # cs) =
     (if startsWith (c # cs) PREVIOUS
      then replacement @ substitutePrevious replacement (drop (length PREVIOUS) (c # cs))
      else c # substitutePrevious replacement cs)"
  by pat_completeness auto
termination
  by (relation "measure (\<lambda>(r, s). length s)") (auto simp: PREVIOUS_def js_def)

definition missingAgents :: "DispatchEnv \<Rightarrow> ChainStep list \<Rightarrow> jsstring list" where
  "missingAgents env steps =
     map (\<lambda>s. orElse (ChainStep.agent s) [])
       (filter (\<lambda>s. truthy (ChainStep.agent s) \<and> findAgent env (orElse (ChainStep.agent s) []) = None) steps)"

text \<open>\<^verbatim>\<open>list.join(", ")\<close>\<close>

fun joinComma :: "jsstring list \<Rightarrow> jsstring" where
  "joinComma [] = []"
| "joinComma [l] = l"
| "joinComma (l # m # ls) = l @ js '', '' @ joinComma (m # ls)"

definition stepOptions :: "DispatchEnv \<Rightarrow> ParallelParams \<Rightarrow> ChainStep \<Rightarrow> nat \<Rightarrow> jsstring \<Rightarrow> ExecutorOptions" where
  "stepOptions env params st i previousOutput =
     (let taskWithContext = replacePrevious (ChainStep.task st) previousOutput;
          stepId = generateTaskId (i + 1) (Some (js ''step_'' @ digits (i + 1)));
          resolved = resolveAgentSettings (findAgent env) (ChainStep.agent st)
                       \<lparr>Overrides.provider = ChainStep.provider st, model = ChainStep.model st,
                        tools = ChainStep.tools st, systemPrompt = ChainStep.systemPrompt st,
                        thinking = ChainStep.thinking st\<rparr>;
          stepName = orElse (map_option AgentConfig.name (agentConfig resolved)) (js ''Step '' @ digits (i + 1))
      in \<lparr>ExecutorOptions.task = taskWithContext,
          cwd = workingDir env params,
          provider = Overrides.provider resolved,
          model = Overrides.model resolved,
          tools = Overrides.tools resolved,
          systemPrompt = Overrides.systemPrompt resolved,
          context = None,
          thinking = Overrides.thinking resolved,
          id' = stepId,
          name = Some stepName,
          step = Some (i + 1)\<rparr>)"

text \<open>
  The loop \<^verbatim>\<open>for (let i = 0; i < params.chain.length; i++)\<close> over the steps that remain,
  with the results and the executor calls so far.
\<close>

fun chainLoop ::
  "DispatchEnv \<Rightarrow> ParallelParams \<Rightarrow> ChainStep list \<Rightarrow> nat \<Rightarrow> jsstring \<Rightarrow> TaskResult list
   \<Rightarrow> ExecutorOptions list \<Rightarrow> Response \<times> ExecutorOptions list" where
  "chainLoop env params [] i previousOutput rs calls =
     (makeDetails env ModeChain rs
        (if rs = [] then js ''(no output)'' else orElse (Some (output (last rs))) (js ''(no output)'')) False,
      calls)"
| "chainLoop env params (st # rest) i previousOutput rs calls =
     (let options = stepOptions env params st i previousOutput;
          result = executor env options
      in if runFailed result
         then (makeDetails env ModeChain (rs @ [result])
                 (js ''Chain stopped at step '' @ digits (i + 1) @ js '': ''
                  @ orElse (error result) (orElse (Some (output result)) (js ''(no output)''))) True,
               calls @ [options])
         else chainLoop env params rest (i + 1) (output result) (rs @ [result]) (calls @ [options]))"

definition chainMode :: "DispatchEnv \<Rightarrow> ParallelParams \<Rightarrow> Response \<times> ExecutorOptions list" where
  "chainMode env params =
     (let steps = (case chain params of None \<Rightarrow> [] | Some c \<Rightarrow> c)
      in if missingAgents env steps \<noteq> []
         then (makeDetails env ModeChain []
                 (js ''Unknown agent(s) in chain: '' @ joinComma (missingAgents env steps)
                  @ availableAgents env params) False,
               [])
         else chainLoop env params steps 0 [] [] [])"

subsection \<open>Mode validation\<close>

definition invalidParameters :: "DispatchEnv \<Rightarrow> ParallelParams \<Rightarrow> Response" where
  "invalidParameters env params =
     \<lparr>text = js ''Invalid parameters. Provide exactly one mode: task (single), tasks (parallel), chain, race, or team.''
             @ availableAgents env params,
      mode = ModeSingle, results = [], totalDurationMs = 0, isError = False\<rparr>"

definition execute :: "DispatchEnv \<Rightarrow> ParallelParams \<Rightarrow> Response \<times> ExecutorOptions list" where
  "execute env params =
     (if modeCount params \<noteq> 1 then (invalidParameters env params, [])
      else if hasSingle params then singleMode env params
      else if hasChain params then chainMode env params
      else if hasRace params then raceMode env params
      else if hasTasks params then parallelMode env params
      else if hasTeam params then teamMode env params
      else (makeDetails env ModeSingle [] (js ''Invalid parameters'') False, []))"

subsection \<open>Concurrency limits\<close>

text \<open>\<^verbatim>\<open>requested || DEFAULT_CONCURRENCY\<close>: a missing value and 0 give the default.\<close>

definition orDefaultConcurrency :: "int option \<Rightarrow> int" where
  "orDefaultConcurrency requested =
     (case requested of None \<Rightarrow> DEFAULT_CONCURRENCY | Some r \<Rightarrow> if r = 0 then DEFAULT_CONCURRENCY else r)"

text \<open>Parallel mode: \<^verbatim>\<open>Math.min(params.maxConcurrency || DEFAULT_CONCURRENCY, MAX_CONCURRENCY, tasks.length)\<close>.\<close>

definition parallelMaxConcurrency :: "int option \<Rightarrow> TaskItem list \<Rightarrow> int" where
  "parallelMaxConcurrency requested ts =
     min (min (orDefaultConcurrency requested) MAX_CONCURRENCY) (int (length ts))"

text \<open>The test \<^verbatim>\<open>/\{(task|result)_(\d+)\}/.test(t.task)\<close>.\<close>

definition isDigit :: "16 word \<Rightarrow> bool" where
  "isDigit c = (0x30 \<le> c \<and> c \<le> 0x39)"

definition digitsThenBrace :: "jsstring \<Rightarrow> bool" where
  "digitsThenBrace s = (takeWhile isDigit s \<noteq> [] \<and> startsWith (dropWhile isDigit s) (js ''}''))"

definition crossRefAt :: "jsstring \<Rightarrow> bool" where
  "crossRefAt s =
     ((startsWith s (js ''{task_'') \<and> digitsThenBrace (drop 6 s))
      \<or> (startsWith s (js ''{result_'') \<and> digitsThenBrace (drop 8 s)))"

fun crossRefTest :: "jsstring \<Rightarrow> bool" where
  "crossRefTest [] = False"
| "crossRefTest (c # cs) = (crossRefAt (c # cs) \<or> crossRefTest cs)"

definition hasCrossRefs :: "TaskItem list \<Rightarrow> bool" where
  "hasCrossRefs ts = list_ex (\<lambda>t. crossRefTest (TaskItem.task t)) ts"

text \<open>The limit handed to \<^verbatim>\<open>mapWithConcurrencyLimit\<close>: \<^verbatim>\<open>hasCrossRefs ? 1 : maxConcurrency\<close>.\<close>

definition parallelPoolLimit :: "int option \<Rightarrow> TaskItem list \<Rightarrow> int" where
  "parallelPoolLimit requested ts = (if hasCrossRefs ts then 1 else parallelMaxConcurrency requested ts)"

text \<open>Team mode: \<^verbatim>\<open>Math.min(teamMaxConcurrency || DEFAULT_CONCURRENCY, MAX_CONCURRENCY)\<close>.\<close>

definition teamMaxConc :: "TeamConfig \<Rightarrow> int" where
  "teamMaxConc t = min (orDefaultConcurrency (TeamConfig.maxConcurrency t)) MAX_CONCURRENCY"

subsection \<open>Notions used to state the validation property\<close>

text \<open>
  The modes a parameter object supplies, read off the object alone: a mode is supplied
  when its key holds a value. A supplied mode is empty when it is a \<^verbatim>\<open>chain\<close> or \<^verbatim>\<open>tasks\<close>
  array with no element, or a \<^verbatim>\<open>task\<close> string that is blank (empty once trimmed).
\<close>

definition suppliedModes_spec :: "ParallelParams \<Rightarrow> mode list" where
  "suppliedModes_spec params =
     (if ParallelParams.task params \<noteq> None then [ModeSingle] else [])
     @ (if ParallelParams.tasks params \<noteq> None then [ModeParallel] else [])
     @ (if chain params \<noteq> None then [ModeChain] else [])
     @ (if race params \<noteq> None then [ModeRace] else [])
     @ (if team params \<noteq> None then [ModeTeam] else [])"

definition suppliedEmpty_spec :: "ParallelParams \<Rightarrow> mode \<Rightarrow> bool" where
  "suppliedEmpty_spec params m =
     (case m of
        ModeSingle \<Rightarrow> (case ParallelParams.task params of None \<Rightarrow> False | Some t \<Rightarrow> trim t = [])
      | ModeParallel \<Rightarrow> ParallelParams.tasks params = Some []
      | ModeChain \<Rightarrow> chain params = Some []
      | ModeRace \<Rightarrow> False
      | ModeTeam \<Rightarrow> False)"

definition suppliedWithContent_spec :: "ParallelParams \<Rightarrow> mode list" where
  "suppliedWithContent_spec params =
     filter (\<lambda>m. \<not> suppliedEmpty_spec params m) (suppliedModes_spec params)"

subsection \<open>Notions used to state the chain properties\<close>

text \<open>A run that halts the chain, the text of the halting response, and the output before step \<open>k\<close>.\<close>

definition stoppedText :: "nat \<Rightarrow> TaskResult \<Rightarrow> jsstring" where
  "stoppedText n r = js ''Chain stopped at step '' @ digits n @ js '': ''
                  @ orElse (error r) (orElse (Some (output r)) (js ''(no output)''))"

definition previousOf :: "TaskResult list \<Rightarrow> nat \<Rightarrow> jsstring" where
  "previousOf rs k = (if k = 0 then [] else output (rs ! (k - 1)))"

subsection \<open>Concrete dispatcher inputs\<close>

text \<open>
  Stub executors: one that answers with its prompt, one that answers with nothing, one
  that fails; a dispatcher environment around each, with no agent definitions.
\<close>

definition stubResult :: "ExecutorOptions \<Rightarrow> jsstring \<Rightarrow> int \<Rightarrow> TaskResult" where
  "stubResult options out code =
     \<lparr>TaskResult.id' = ExecutorOptions.id' options, name = ExecutorOptions.name options,
      task = ExecutorOptions.task options, model = ExecutorOptions.model options,
      exitCode = code, output = out, stderr = [], truncated = False, error = None,
      aborted = False, step = ExecutorOptions.step options\<rparr>"

definition noEngine :: "ParallelParams \<Rightarrow> Response \<times> ExecutorOptions list" where
  "noEngine params = (\<lparr>text = [], mode = ModeSingle, results = [], totalDurationMs = 0, isError = False\<rparr>, [])"

definition stubEnv :: "(ExecutorOptions \<Rightarrow> TaskResult) \<Rightarrow> DispatchEnv" where
  "stubEnv run = \<lparr>findAgent = (\<lambda>n. None), agentList = js ''none'', ctxCwd = js ''/work'', elapsed = 7,
                  executor = run, raceMode = noEngine, parallelMode = noEngine, teamMode = noEngine\<rparr>"

definition echoEnv :: DispatchEnv where
  "echoEnv = stubEnv (\<lambda>options. stubResult options (ExecutorOptions.task options) 0)"

definition silentEnv :: DispatchEnv where
  "silentEnv = stubEnv (\<lambda>options. stubResult options [] 0)"

definition failingEnv :: DispatchEnv where
  "failingEnv = stubEnv (\<lambda>options. stubResult options (js ''boom'') 1)"

definition plainStep :: "jsstring \<Rightarrow> ChainStep" where
  "plainStep t = \<lparr>ChainStep.task = t, agent = None, provider = None, model = None, tools = None,
                  systemPrompt = None, thinking = None\<rparr>"

definition noParams :: ParallelParams where
  "noParams = \<lparr>agentScope = None, task = None, agent = None, provider = None, model = None, tools = None,
               systemPrompt = None, thinking = None, tasks = None, maxConcurrency = None, chain = None,
               race = None, team = None, cwd = None\<rparr>"

definition C8_steps :: "ChainStep list" where
  "C8_steps = [plainStep (js ''emit FOO''), plainStep (js ''echo {previous}'')]"

definition C8_params :: ParallelParams where
  "C8_params = noParams\<lparr>chain := Some C8_steps\<rparr>"

definition C8_single_step :: ParallelParams where
  "C8_single_step = noParams\<lparr>chain := Some [plainStep (js ''say nothing'')]\<rparr>"

definition C3_two_modes :: ParallelParams where
  "C3_two_modes = noParams\<lparr>task := Some (js ''do it''), chain := Some C8_steps\<rparr>"

definition C3_three_keys :: ParallelParams where
  "C3_three_keys = noParams\<lparr>task := Some (js ''x''), tasks := Some [], chain := Some []\<rparr>"

definition C7_tasks :: "TaskItem list" where
  "C7_tasks = [\<lparr>TaskItem.task = js ''list the files'', name = None, agent = None\<rparr>,
               \<lparr>TaskItem.task = js ''summarise {result_0}'', name = None, agent = None\<rparr>]"

definition C7_team :: TeamConfig where
  "C7_team = \<lparr>objective = js ''ship it'', members = [js ''dev'', js ''qa''], tasks = None,
               maxConcurrency = Some 5\<rparr>"

subsection \<open>Notions used to state the DAG properties\<close>

text \<open>At the head of the loop the history holds one entry per finished iteration.\<close>

definition reviewInv :: "int \<Rightarrow> rstate \<Rightarrow> bool" where
  "reviewInv maxIter s =
     (case (DagNode.iteration (fst s), DagNode.reviewHistory (fst s), DagNode.iterationResults (fst s)) of
        (Some it, Some hist, Some irs) \<Rightarrow> int (length hist) + 1 = it \<and> it \<le> maxIter
      | _ \<Rightarrow> False)"

text \<open>What the claim says of a node the review cycle has left.\<close>

definition reviewSettled :: "int \<Rightarrow> DagNode \<Rightarrow> bool" where
  "reviewSettled maxIter node =
     (DagNode.status node = Completed
      \<and> (case DagNode.reviewHistory node of
            None \<Rightarrow> False
          | Some hist \<Rightarrow> hist \<noteq> [] \<and> int (length hist) \<le> maxIter
                        \<and> (if ReviewEntry.approved (last hist) then True else int (length hist) = maxIter)))"

text \<open>
  The invariant of a run. A node is idle when it is pending or blocked. Every node sits
  under its task id, and a node that is not idle, or that was ever started, has all its
  dependencies completed.
\<close>

definition idle :: "DagNode \<Rightarrow> bool" where
  "idle n = (DagNode.status n = Pending \<or> DagNode.status n = Blocked)"

definition nodeOk :: "dag \<Rightarrow> jsstring list \<Rightarrow> jsstring \<times> DagNode \<Rightarrow> bool" where
  "nodeOk ns st e =
     (TeamTask.id' (DagNode.task (snd e)) = fst e
      \<and> (allDepsComplete ns (snd e) \<or> (idle (snd e) \<and> fst e \<notin> set st)))"

definition dagInv :: "dag \<Rightarrow> jsstring list \<Rightarrow> bool" where
  "dagInv ns st = (distinct (map fst ns) \<and> list_all (nodeOk ns st) ns)"

text \<open>Marking one node of a batch, and a node that may be marked.\<close>

definition markRunning :: "jsstring \<times> DagNode \<Rightarrow> dag \<Rightarrow> dag" where
  "markRunning e ns = updateNode (fst e) (\<lambda>m. m\<lparr>DagNode.status := Running\<rparr>) ns"

definition startable :: "dag \<Rightarrow> jsstring \<Rightarrow> bool" where
  "startable ns k = (statusOf ns k = Some Ready \<or> statusOf ns k = Some Running)"

text \<open>One step of the readiness update.\<close>

definition readyStep :: "jsstring \<Rightarrow> dag \<Rightarrow> dag" where
  "readyStep j ns = updateNode j (readiness ns) ns"

text \<open>A node that waits on a failed node: pending or already blocked.\<close>

definition waitsOnFailed :: "dag \<Rightarrow> jsstring \<Rightarrow> jsstring \<Rightarrow> bool" where
  "waitsOnFailed ns k d =
     (statusOf ns d = Some Failed
      \<and> (case map_of ns k of
            None \<Rightarrow> False
          | Some m \<Rightarrow> d \<in> set (DagNode.dependsOn m) \<and> idle m))"

subsection \<open>Concrete graphs and agents\<close>

text \<open>
  A node as \<^verbatim>\<open>buildDag\<close> creates it (the reverse edges, which the executor does not read,
  are left empty), agents that always return the same result, the chain \<open>a\<close>, \<open>b\<close>, \<open>c\<close>
  of tasks in which each depends on the one before, and a task under review.
\<close>

definition plainTask :: "jsstring \<Rightarrow> jsstring list \<Rightarrow> TeamTask" where
  "plainTask i ds = \<lparr>TeamTask.id' = i, task = js ''work'', assignee = None, depends = Some ds,
                     requiresApproval = False, review = None\<rparr>"

definition newNode :: "TeamTask \<Rightarrow> jsstring \<times> DagNode" where
  "newNode t = (TeamTask.id' t,
                \<lparr>DagNode.task = t,
                 dependsOn = (case TeamTask.depends t of None \<Rightarrow> [] | Some ds \<Rightarrow> ds),
                 dependedBy = [], status = Pending, result = None, iteration = None,
                 reviewHistory = None, iterationResults = None\<rparr>)"

definition agentResult :: "jsstring \<Rightarrow> int \<Rightarrow> TaskResult" where
  "agentResult out code =
     \<lparr>TaskResult.id' = [], name = None, task = [], model = None, exitCode = code, output = out,
      stderr = [], truncated = False, error = None, aborted = False, step = None\<rparr>"

definition agentsReturning :: "TaskResult \<Rightarrow> DagEnv" where
  "agentsReturning r = \<lparr>DagEnv.agent = (\<lambda>n c. r), signalAborted = (\<lambda>n. False), onApprovalNeeded = None,
                         maxConcurrency = 4, toLowerCase = asciiLower\<rparr>"

definition C1_nodes :: dag where
  "C1_nodes = map newNode [plainTask (js ''a'') [], plainTask (js ''b'') [js ''a''],
                            plainTask (js ''c'') [js ''b'']]"

definition C1_final :: DagState where
  "C1_final = snd (executeDag (agentsReturning (agentResult (js ''boom'') 1)) 2 (updateReadyState C1_nodes))"

definition reviewedTask :: "int option \<Rightarrow> TeamTask" where
  "reviewedTask m = \<lparr>TeamTask.id' = js ''t'', task = js ''write'', assignee = None, depends = None,
                      requiresApproval = False,
                      review = Some \<lparr>ReviewConfig.assignee = js ''critic'', task = None, maxIterations = m\<rparr>\<rparr>"

definition C1_failed :: dag where
  "C1_failed = updateNode (js ''a'') (\<lambda>n. n\<lparr>DagNode.status := Failed\<rparr>) C1_nodes"

definition C2_run :: "int option \<Rightarrow> DagExecutionResult option \<times> DagState" where
  "C2_run m = executeDag (agentsReturning (agentResult (js ''APPROVED'') 0)) 2
                (updateReadyState [newNode (reviewedTask m)])"

definition reviewStart :: "int option \<Rightarrow> rstate" where
  "reviewStart m = (snd (newNode (reviewedTask m))
                      \<lparr>DagNode.status := Running, DagNode.result := Some (agentResult (js ''draft'') 0),
                       DagNode.iteration := Some 1, DagNode.reviewHistory := Some [],
                       DagNode.iterationResults := Some [agentResult (js ''draft'') 0]\<rparr>,
                    [agentResult (js ''draft'') 0], 1)"

section \<open>Properties of the executor\<close>

subsection \<open>The final output\<close>

lemma firstTextPart_append:
  "list_all (\<lambda>p. p = OtherPart) ps \<Longrightarrow> firstTextPart (ps @ TextPart t # qs) = Some t"
  by (induction ps) auto

lemma scanMessages_skip:
  "list_all (\<lambda>m. \<not> hasText m) ys \<Longrightarrow>
   scanMessages (xs @ ys @ zs) (length xs + length ys) = scanMessages (xs @ ys @ zs) (length xs)"
proof (induction ys arbitrary: zs rule: rev_induct)
  case Nil
  then show ?case by simp
next
  case (snoc y ys)
  then have a: "list_all (\<lambda>m. \<not> hasText m) ys" and b: "\<not> hasText y" by auto
  have nth: "(xs @ (ys @ [y]) @ zs) ! (length xs + length ys) = y"
    by (simp add: nth_append)
  have "scanMessages (xs @ (ys @ [y]) @ zs) (length xs + length (ys @ [y]))
        = scanMessages (xs @ (ys @ [y]) @ zs) (Suc (length xs + length ys))" by simp
  also have "\<dots> = scanMessages (xs @ (ys @ [y]) @ zs) (length xs + length ys)"
    using b nth by (auto simp: hasText_def split: option.splits)
  also have "\<dots> = scanMessages (xs @ ys @ ([y] @ zs)) (length xs + length ys)" by simp
  also have "\<dots> = scanMessages (xs @ ys @ ([y] @ zs)) (length xs)"
    using snoc.IH[OF a] by blast
  finally show ?case by simp
qed

text \<open>
  C9, as the code has it. The final output is found by scanning the messages from the end:
  it is the \<^emph>\<open>first\<close> text part of the last assistant message that has a text part
  (assistant messages without one are skipped), and the empty string when no assistant
  message has a text part.
\<close>

theorem getFinalOutput_first_text_of_last_assistant:
  "(list_all (\<lambda>m. \<not> hasText m) after \<and> role m = Assistant
      \<and> content m = ps @ TextPart t # qs \<and> list_all (\<lambda>p. p = OtherPart) ps
    \<longrightarrow> getFinalOutput (before @ m # after) = t)
   \<and> (list_all (\<lambda>m. \<not> hasText m) msgs \<longrightarrow> getFinalOutput msgs = [])"
proof (intro conjI impI)
  assume h: "list_all (\<lambda>m. \<not> hasText m) after \<and> role m = Assistant
      \<and> content m = ps @ TextPart t # qs \<and> list_all (\<lambda>p. p = OtherPart) ps"
  then have ft: "firstTextPart (content m) = Some t" by (simp add: firstTextPart_append)
  have "getFinalOutput (before @ m # after)
        = scanMessages ((before @ [m]) @ after @ []) (length (before @ [m]) + length after)"
    by (simp add: getFinalOutput_def)
  also have "\<dots> = scanMessages ((before @ [m]) @ after @ []) (length (before @ [m]))"
    using h by (intro scanMessages_skip) simp
  also have "\<dots> = scanMessages (before @ m # after) (Suc (length before))" by simp
  also have "\<dots> = t" using h ft by (simp add: nth_append)
  finally show "getFinalOutput (before @ m # after) = t" .
next
  assume h: "list_all (\<lambda>m. \<not> hasText m) msgs"
  have "getFinalOutput msgs = scanMessages ([] @ msgs @ []) (length ([]::Message list) + length msgs)"
    by (simp add: getFinalOutput_def)
  also have "\<dots> = scanMessages ([] @ msgs @ []) (length ([]::Message list))"
    using h by (intro scanMessages_skip)
  finally show "getFinalOutput msgs = []" by simp
qed

text \<open>The theorem at a concrete message list, and at one without assistant text.\<close>

theorem getFinalOutput_witness:
  "getFinalOutput ([] @ C9_message # [\<lparr>role = User, content = [TextPart (js ''later'')], stopReason = None, errorMessage = None\<rparr>])
     = js ''first''
   \<and> getFinalOutput [\<lparr>role = User, content = [TextPart (js ''x'')], stopReason = None, errorMessage = None\<rparr>] = []"
proof -
  let ?u = "\<lparr>role = User, content = [TextPart (js ''later'')], stopReason = None, errorMessage = None\<rparr>"
  let ?v = "\<lparr>role = User, content = [TextPart (js ''x'')], stopReason = None, errorMessage = None\<rparr>"
  have 1: "list_all (\<lambda>m. \<not> hasText m) [?u] \<and> role C9_message = Assistant
      \<and> content C9_message = [] @ TextPart (js ''first'') # [OtherPart, TextPart (js ''second'')]
      \<and> list_all (\<lambda>p. p = OtherPart) []"
    by (simp add: hasText_def C9_message_def)
  have 2: "list_all (\<lambda>m. \<not> hasText m) [?v]" by (simp add: hasText_def)
  from getFinalOutput_first_text_of_last_assistant[of "[?u]" C9_message "[]" "js ''first''"
        "[OtherPart, TextPart (js ''second'')]" "[]" "[?v]"] 1 2
  show ?thesis by blast
qed

text \<open>
  C9 as stated fails: for an assistant message with the text parts \<open>first\<close> and \<open>second\<close>
  the last text part is \<open>second\<close>, and \<^verbatim>\<open>getFinalOutput\<close> returns \<open>first\<close>.
\<close>

theorem getFinalOutput_not_last_text_part:
  "lastTextPart (content C9_message) = Some (js ''second'')
   \<and> getFinalOutput [C9_message] \<noteq> js ''second''"
  by (simp add: C9_message_def getFinalOutput_def js_def)

subsection \<open>Output truncation\<close>

lemma byteLength_le: "byteLength s \<le> 3 * length s"
  by (induction s rule: byteLength.induct) auto

lemma halveWhileOver_total:
  assumes "3 \<le> maxBytes"
  shows "\<exists>r k. halveWhileOver maxBytes s = Some r \<and> byteLength r \<le> maxBytes \<and> r = drop k s"
proof (induction s rule: length_induct)
  case (1 s)
  show ?case
  proof (cases "byteLength s > maxBytes \<and> length s > 0")
    case True
    then have len: "2 \<le> length s"
      using byteLength_le[of s] assms by (cases "length s \<le> 1") auto
    let ?s' = "drop (length s div 2) s"
    have "length ?s' < length s" using len by simp
    with 1 obtain r k where r: "halveWhileOver maxBytes ?s' = Some r" "byteLength r \<le> maxBytes" "r = drop k ?s'"
      by blast
    have "halveWhileOver maxBytes s = Some r"
      using True r(1) by (subst halveWhileOver.simps) simp
    moreover have "r = drop (k + length s div 2) s" using r(3) by simp
    ultimately show ?thesis using r(2) by blast
  next
    case False
    then have "halveWhileOver maxBytes s = Some s"
      by (subst halveWhileOver.simps) auto
    moreover have "byteLength s \<le> maxBytes" using False by (cases s) auto
    moreover have "s = drop 0 s" by simp
    ultimately show ?thesis by blast
  qed
qed

lemma truncateOutput_eq_halve:
  "truncateOutput s mb ml = (case halveWhileOver mb (join_nl (keepLastLines ml (split_nl s))) of
       None \<Rightarrow> None
     | Some r \<Rightarrow> Some (r, length (split_nl s) > ml \<or> byteLength (join_nl (keepLastLines ml (split_nl s))) > mb))"
proof (cases "byteLength (join_nl (keepLastLines ml (split_nl s))) > mb")
  case True
  then show ?thesis by (simp add: truncateOutput_def Let_def split: option.splits)
next
  case False
  then have "halveWhileOver mb (join_nl (keepLastLines ml (split_nl s))) = Some (join_nl (keepLastLines ml (split_nl s)))"
    by (subst halveWhileOver.simps) simp
  with False show ?thesis by (simp add: truncateOutput_def Let_def)
qed

lemma truncateOutput_returns:
  "\<exists>out tr. truncateOutput s MAX_OUTPUT_BYTES MAX_OUTPUT_LINES = Some (out, tr)"
proof -
  have "3 \<le> MAX_OUTPUT_BYTES" by (simp add: MAX_OUTPUT_BYTES_def)
  from halveWhileOver_total[OF this] obtain r where
    "halveWhileOver MAX_OUTPUT_BYTES (join_nl (keepLastLines MAX_OUTPUT_LINES (split_nl s))) = Some r"
    by blast
  then show ?thesis by (simp add: truncateOutput_eq_halve)
qed

lemma split_nl_nonempty: "split_nl s \<noteq> []"
  by (induction s) (auto split: list.splits)

lemma length_split_nl: "length (split_nl s) = Suc (newlines s)"
  by (induction s) (auto simp: newlines_def split_nl_nonempty split: list.splits)

lemma newlines_drop: "newlines (drop k s) \<le> newlines s"
proof -
  have "newlines s = newlines (take k s) + newlines (drop k s)"
    unfolding newlines_def by (metis append_take_drop_id filter_append length_append)
  then show ?thesis by simp
qed

lemma join_split_nl: "join_nl (split_nl s) = s"
proof (induction s)
  case Nil then show ?case by simp
next
  case (Cons c cs)
  then show ?case
    by (cases "split_nl cs"; cases "tl (split_nl cs)") (auto simp: split_nl_nonempty)
qed

lemma split_nl_no_newline: "l \<in> set (split_nl s) \<Longrightarrow> 0x0A \<notin> set l"
proof (induction s arbitrary: l)
  case Nil then show ?case by simp
next
  case (Cons c cs)
  then show ?case
    by (cases "split_nl cs") (auto simp: split_nl_nonempty split: if_splits)
qed

lemma newlines_join_nl:
  "ls \<noteq> [] \<Longrightarrow> list_all (\<lambda>l. 0x0A \<notin> set l) ls \<Longrightarrow> newlines (join_nl ls) = length ls - 1"
proof (induction ls rule: join_nl.induct)
  case 1 then show ?case by simp
next
  case (2 l)
  then show ?case by (auto simp: newlines_def filter_empty_conv)
next
  case (3 l m ls)
  then have "filter (\<lambda>c. c = 0x0A) l = []" by (auto simp: filter_empty_conv)
  with 3 show ?case by (simp add: newlines_def)
qed

lemma length_join_nl: "length (join_nl ls) = sum_list (map length ls) + (length ls - 1)"
  by (induction ls rule: join_nl.induct) auto

lemma sum_list_drop_le: "sum_list (map length (drop d ls)) \<le> sum_list (map length (ls :: 'a list list))"
proof -
  have "sum_list (map length ls) = sum_list (map length (take d ls)) + sum_list (map length (drop d ls))"
    by (metis append_take_drop_id map_append sum_list_append)
  then show ?thesis by simp
qed

lemma length_join_nl_drop:
  assumes "0 < d" "d < length ls"
  shows "length (join_nl (drop d ls)) < length (join_nl ls)"
  using assms sum_list_drop_le[of d ls] by (simp add: length_join_nl)

lemma keepLastLines_drop: "keepLastLines n ls = drop (length ls - n) ls"
  by (simp add: keepLastLines_def)

text \<open>
  C5. With the default caps \<^verbatim>\<open>truncateOutput\<close> returns on every string. Its output is what
  the halving loop makes of the last 2000 lines; it has at most \<open>MAX_OUTPUT_BYTES\<close> bytes in
  UTF-8 and at most \<open>MAX_OUTPUT_LINES\<close> lines; and the flag is set exactly when the output
  differs from the input.
\<close>

theorem truncateOutput_caps:
  "\<exists>out tr.
      truncateOutput s MAX_OUTPUT_BYTES MAX_OUTPUT_LINES = Some (out, tr)
    \<and> halveWhileOver MAX_OUTPUT_BYTES
          (join_nl (drop (length (split_nl s) - MAX_OUTPUT_LINES) (split_nl s))) = Some out
    \<and> byteLength out \<le> MAX_OUTPUT_BYTES
    \<and> length (split_nl out) \<le> MAX_OUTPUT_LINES
    \<and> (tr \<longleftrightarrow> out \<noteq> s)"
proof -
  let ?lines = "split_nl s"
  let ?kept = "keepLastLines MAX_OUTPUT_LINES ?lines"
  let ?res = "join_nl ?kept"
  have mb: "3 \<le> MAX_OUTPUT_BYTES" by (simp add: MAX_OUTPUT_BYTES_def)
  have ml: "0 < MAX_OUTPUT_LINES" by (simp add: MAX_OUTPUT_LINES_def)
  obtain r k where r: "halveWhileOver MAX_OUTPUT_BYTES ?res = Some r"
      "byteLength r \<le> MAX_OUTPUT_BYTES" "r = drop k ?res"
    using halveWhileOver_total[OF mb, of ?res] by blast
  let ?tr = "length ?lines > MAX_OUTPUT_LINES \<or> byteLength ?res > MAX_OUTPUT_BYTES"
  have t: "truncateOutput s MAX_OUTPUT_BYTES MAX_OUTPUT_LINES = Some (r, ?tr)"
    using r(1) by (simp add: truncateOutput_eq_halve)
  have kept_ne: "?kept \<noteq> []"
    using split_nl_nonempty[of s] ml by (auto simp: keepLastLines_def)
  have kept_len: "length ?kept \<le> MAX_OUTPUT_LINES"
    by (auto simp: keepLastLines_def)
  have "list_all (\<lambda>l. 0x0A \<notin> set l) ?kept"
    unfolding list_all_iff keepLastLines_drop
    using split_nl_no_newline[of _ s] by (meson in_set_dropD)
  then have "newlines ?res = length ?kept - 1"
    using kept_ne by (rule newlines_join_nl[rotated])
  then have "length (split_nl ?res) = length ?kept"
    using kept_ne by (simp add: length_split_nl)
  moreover have "length (split_nl r) \<le> length (split_nl ?res)"
    using newlines_drop[of k ?res] r(3) by (simp add: length_split_nl)
  ultimately have lines_ok: "length (split_nl r) \<le> MAX_OUTPUT_LINES"
    using kept_len by simp
  have flag: "?tr \<longleftrightarrow> r \<noteq> s"
  proof (cases "length ?lines > MAX_OUTPUT_LINES")
    case True
    then have "length ?res < length (join_nl ?lines)"
      using ml by (simp add: keepLastLines_def length_join_nl_drop)
    then have "length ?res < length s" by (simp add: join_split_nl)
    moreover have "length r \<le> length ?res" using r(3) by simp
    ultimately have "r \<noteq> s" by auto
    with True show ?thesis by simp
  next
    case False
    then have res: "?res = s" by (simp add: keepLastLines_def join_split_nl)
    show ?thesis
    proof (cases "byteLength ?res > MAX_OUTPUT_BYTES")
      case True
      then have "r \<noteq> ?res" using r(2) by auto
      with True res show ?thesis by simp
    next
      case over: False
      then have "halveWhileOver MAX_OUTPUT_BYTES ?res = Some ?res"
        by (subst halveWhileOver.simps) simp
      with r(1) have "r = ?res" by simp
      with over False res show ?thesis by simp
    qed
  qed
  have "halveWhileOver MAX_OUTPUT_BYTES
          (join_nl (drop (length ?lines - MAX_OUTPUT_LINES) ?lines)) = Some r"
    using r(1) by (simp add: keepLastLines_drop)
  with t r(2) lines_ok flag show ?thesis by blast
qed

subsection \<open>API errors\<close>

lemma processLine_keeps_apiError:
  "\<not> recordsApiError e \<Longrightarrow> apiError (processLine e st) = apiError st"
  by (cases "(e, st)" rule: processLine.cases) (auto simp: recordsApiError_def Let_def)

lemma fold_processLine_keeps_apiError:
  "list_all (\<lambda>e. \<not> recordsApiError e) es \<Longrightarrow> apiError (fold processLine es st) = apiError st"
  by (induction es arbitrary: st) (auto simp: processLine_keeps_apiError)

lemma processLine_records:
  "role msg = Assistant \<Longrightarrow> isApiError msg \<Longrightarrow> errorMessage msg = Some m \<Longrightarrow>
   apiError (processLine (MessageEnd (Some msg)) st) = m"
  by (simp add: Let_def)

lemma runAgent_result:
  assumes "childExit child = 0"
  shows "\<exists>r. runAgent opts child = Some r
           \<and> exitCode r = (if apiError (fold processLine (childEvents child) \<lparr>messages = [], apiError = [], turns = 0\<rparr>) \<noteq> [] then 1 else 0)
           \<and> error r = (if apiError (fold processLine (childEvents child) \<lparr>messages = [], apiError = [], turns = 0\<rparr>) \<noteq> []
                        then Some (apiError (fold processLine (childEvents child) \<lparr>messages = [], apiError = [], turns = 0\<rparr>)) else None)"
proof -
  let ?st = "fold processLine (childEvents child) \<lparr>messages = [], apiError = [], turns = 0\<rparr>"
  obtain out tr where "truncateOutput (getFinalOutput (messages ?st)) MAX_OUTPUT_BYTES MAX_OUTPUT_LINES = Some (out, tr)"
    using truncateOutput_returns by blast
  then show ?thesis using assms by (simp add: runAgent_def Let_def)
qed

text \<open>
  C6. When the child exits with code 0 and an assistant message carried
  \<^verbatim>\<open>stopReason == "error"\<close> with a non-empty error message (the last such message is the
  one recorded), the result has exit code 1 and that message as its error; when no event
  records an API error, the exit code stays 0 and the error stays undefined. In both
  cases \<^verbatim>\<open>runAgent\<close> returns.
\<close>

theorem runAgent_api_error_rewrites_exit_code:
  "childExit child = 0 \<longrightarrow>
     ((childEvents child = es1 @ MessageEnd (Some msg) # es2 \<and> role msg = Assistant
        \<and> stopReason msg = Some (js ''error'') \<and> errorMessage msg = Some m \<and> m \<noteq> []
        \<and> list_all (\<lambda>e. \<not> recordsApiError e) es2
       \<longrightarrow> (\<exists>r. runAgent opts child = Some r \<and> exitCode r = 1 \<and> error r = Some m))
      \<and> (list_all (\<lambda>e. \<not> recordsApiError e) (childEvents child)
       \<longrightarrow> (\<exists>r. runAgent opts child = Some r \<and> exitCode r = 0 \<and> error r = None)))"
proof (intro impI conjI)
  assume ex: "childExit child = 0"
  assume h: "childEvents child = es1 @ MessageEnd (Some msg) # es2 \<and> role msg = Assistant
        \<and> stopReason msg = Some (js ''error'') \<and> errorMessage msg = Some m \<and> m \<noteq> []
        \<and> list_all (\<lambda>e. \<not> recordsApiError e) es2"
  let ?init = "\<lparr>messages = [], apiError = [], turns = 0\<rparr>"
  have api: "isApiError msg" using h by (simp add: isApiError_def)
  have "apiError (fold processLine (childEvents child) ?init)
        = apiError (fold processLine es2 (processLine (MessageEnd (Some msg)) (fold processLine es1 ?init)))"
    using h by simp
  also have "\<dots> = apiError (processLine (MessageEnd (Some msg)) (fold processLine es1 ?init))"
    using h by (simp add: fold_processLine_keeps_apiError)
  also have "\<dots> = m" using h api by (intro processLine_records) auto
  finally have "apiError (fold processLine (childEvents child) ?init) = m" .
  with runAgent_result[OF ex, of opts] h
  show "\<exists>r. runAgent opts child = Some r \<and> exitCode r = 1 \<and> error r = Some m" by auto
next
  assume ex: "childExit child = 0"
  assume h: "list_all (\<lambda>e. \<not> recordsApiError e) (childEvents child)"
  let ?init = "\<lparr>messages = [], apiError = [], turns = 0\<rparr>"
  have "apiError (fold processLine (childEvents child) ?init) = []"
    using h by (simp add: fold_processLine_keeps_apiError)
  with runAgent_result[OF ex, of opts]
  show "\<exists>r. runAgent opts child = Some r \<and> exitCode r = 0 \<and> error r = None" by auto
qed

text \<open>The theorem on a run with one API error, and on a run with none.\<close>

theorem runAgent_api_error_witness:
  "(\<exists>r. runAgent C6_options (C6_child [MessageEnd (Some C6_error_message), ToolExecutionEnd]) = Some r
        \<and> exitCode r = 1 \<and> error r = Some (js ''401 unauthorized''))
   \<and> (\<exists>r. runAgent C6_options (C6_child [OtherEvent]) = Some r \<and> exitCode r = 0 \<and> error r = None)"
proof -
  have a: "childExit (C6_child [MessageEnd (Some C6_error_message), ToolExecutionEnd]) = 0"
    by (simp add: C6_child_def)
  have b: "childEvents (C6_child [MessageEnd (Some C6_error_message), ToolExecutionEnd])
             = [] @ MessageEnd (Some C6_error_message) # [ToolExecutionEnd]
           \<and> role C6_error_message = Assistant
           \<and> stopReason C6_error_message = Some (js ''error'')
           \<and> errorMessage C6_error_message = Some (js ''401 unauthorized'')
           \<and> js ''401 unauthorized'' \<noteq> []
           \<and> list_all (\<lambda>e. \<not> recordsApiError e) [ToolExecutionEnd]"
    by (simp add: C6_child_def C6_error_message_def recordsApiError_def js_def)
  have c: "childExit (C6_child [OtherEvent]) = 0" by (simp add: C6_child_def)
  have d: "list_all (\<lambda>e. \<not> recordsApiError e) (childEvents (C6_child [OtherEvent]))"
    by (simp add: C6_child_def recordsApiError_def)
  from runAgent_api_error_rewrites_exit_code[of "C6_child [MessageEnd (Some C6_error_message), ToolExecutionEnd]"
         "[]" C6_error_message "[ToolExecutionEnd]" "js ''401 unauthorized''" C6_options] a b
  have 1: "\<exists>r. runAgent C6_options (C6_child [MessageEnd (Some C6_error_message), ToolExecutionEnd]) = Some r
        \<and> exitCode r = 1 \<and> error r = Some (js ''401 unauthorized'')" by blast
  from runAgent_api_error_rewrites_exit_code[of "C6_child [OtherEvent]" "[]" C6_error_message "[]" "[]" C6_options] c d
  have 2: "\<exists>r. runAgent C6_options (C6_child [OtherEvent]) = Some r \<and> exitCode r = 0 \<and> error r = None"
    by blast
  from 1 2 show ?thesis by blast
qed

section \<open>Properties of the workspace\<close>

text \<open>
  C10. The task file name is not injective in the task id: the distinct ids \<open>a/b\<close> and
  \<open>a:b\<close> are written to the same path, the second write replaces the first, and the
  stored body always carries the unsanitized id.
\<close>

theorem writeTaskResult_not_injective:
  "js ''a/b'' \<noteq> js ''a:b''
   \<and> taskFilePath w (js ''a/b'') = taskFilePath w (js ''a:b'')
   \<and> writeTaskResult t2 w (js ''a:b'') o2 s2 (writeTaskResult t1 w (js ''a/b'') o1 s1 fs)
        (taskFilePath w (js ''a/b''))
      = Some \<lparr>file_id = js ''a:b'', file_status = s2, file_output = o2, file_timestamp = t2\<rparr>
   \<and> (\<exists>body. writeTaskResult t w taskId out s fs (taskFilePath w taskId) = Some body
              \<and> file_id body = taskId)"
  by (simp add: writeTaskResult_def taskFilePath_def safeName_def isWordChar_def js_def)

section \<open>Properties of the dispatcher\<close>

text \<open>The equations that evaluate the dispatcher on concrete inputs.\<close>

lemmas chain_eval = chainMode_def missingAgents_def stepOptions_def replacePrevious_def
  resolveAgentSettings_def withoutAgent_def generateTaskId_def makeDetails_def workingDir_def
  stubEnv_def stubResult_def plainStep_def noParams_def truthy_def orElse_def
  PREVIOUS_def js_def isWordChar_def runFailed_def Let_def

subsection \<open>Mode validation\<close>

text \<open>
  The dispatcher counts the supplied modes that are not empty: its five flags are the
  members of \<open>suppliedWithContent_spec\<close>.
\<close>

lemma modeCount_spec: "modeCount params = length (suppliedWithContent_spec params)"
  by (auto simp: modeCount_def hasChain_def hasRace_def hasTasks_def hasSingle_def hasTeam_def
        suppliedWithContent_spec_def suppliedModes_spec_def suppliedEmpty_spec_def
        split: option.splits)

text \<open>
  C3, as the code has it. Count the modes supplied among \<^verbatim>\<open>task\<close>, \<^verbatim>\<open>tasks\<close>, \<^verbatim>\<open>chain\<close>,
  \<^verbatim>\<open>race\<close> and \<^verbatim>\<open>team\<close>, leaving out a \<^verbatim>\<open>chain\<close> or \<^verbatim>\<open>tasks\<close> array that is empty and a
  \<^verbatim>\<open>task\<close> string that is blank. When that count is not 1, the response text begins with
  \<open>Invalid parameters\<close>, the results are empty, the duration is 0, and the agent executor
  is not called.
\<close>

theorem execute_rejects_mode_count:
  "length (suppliedWithContent_spec params) \<noteq> 1 \<Longrightarrow>
     startsWith (text (fst (execute env params))) (js ''Invalid parameters'')
     \<and> results (fst (execute env params)) = []
     \<and> totalDurationMs (fst (execute env params)) = 0
     \<and> snd (execute env params) = []"
  by (simp add: execute_def invalidParameters_def js_def modeCount_spec)

text \<open>The theorem on parameters with two modes, and on parameters with none.\<close>

theorem execute_rejects_witness:
  "suppliedWithContent_spec C3_two_modes = [ModeSingle, ModeChain]
   \<and> startsWith (text (fst (execute echoEnv C3_two_modes))) (js ''Invalid parameters'')
   \<and> results (fst (execute echoEnv C3_two_modes)) = []
   \<and> totalDurationMs (fst (execute echoEnv C3_two_modes)) = 0
   \<and> snd (execute echoEnv C3_two_modes) = []
   \<and> suppliedWithContent_spec noParams = []
   \<and> snd (execute echoEnv noParams) = []"
proof -
  have a: "suppliedWithContent_spec C3_two_modes = [ModeSingle, ModeChain]"
    by (simp add: suppliedWithContent_spec_def suppliedModes_spec_def suppliedEmpty_spec_def
        C3_two_modes_def noParams_def C8_steps_def trim_def isWhiteSpace_def js_def)
  have b: "suppliedWithContent_spec noParams = []"
    by (simp add: suppliedWithContent_spec_def suppliedModes_spec_def suppliedEmpty_spec_def noParams_def)
  from execute_rejects_mode_count[of C3_two_modes echoEnv] a
       execute_rejects_mode_count[of noParams echoEnv] b
  show ?thesis by simp
qed

text \<open>
  C3 as stated fails. The parameters \<^verbatim>\<open>{task: "x", tasks: [], chain: []}\<close> supply three
  modes, yet the dispatcher counts one: it runs single mode, calls the executor with the
  task \<open>x\<close> and answers with its output.
\<close>

theorem execute_runs_with_empty_arrays:
  "suppliedModes_spec C3_three_keys = [ModeSingle, ModeParallel, ModeChain]
   \<and> text (fst (execute echoEnv C3_three_keys)) = js ''x''
   \<and> map TaskResult.task (results (fst (execute echoEnv C3_three_keys))) = [js ''x'']
   \<and> map ExecutorOptions.task (snd (execute echoEnv C3_three_keys)) = [js ''x'']"
  by (simp add: suppliedModes_spec_def C3_three_keys_def execute_def modeCount_def hasChain_def
        hasRace_def hasTasks_def hasSingle_def hasTeam_def
        singleMode_def echoEnv_def chain_eval trim_def isWhiteSpace_def)

text \<open>With exactly one mode the executor is called: single mode hands it the task.\<close>

lemma execute_single_runs:
  "map ExecutorOptions.task (snd (execute echoEnv (noParams\<lparr>task := Some (js ''do it'')\<rparr>))) = [js ''do it'']"
  by (simp add: execute_def modeCount_def hasChain_def hasRace_def hasTasks_def hasSingle_def hasTeam_def
        singleMode_def echoEnv_def chain_eval trim_def isWhiteSpace_def)

subsection \<open>Concurrency limits\<close>

text \<open>
  C7, as the code has it. With \<open>R'\<close> the requested value, or the default 4 when none is
  supplied or it is 0: parallel mode computes \<open>min(R', 8, N)\<close> over its \<open>N\<close> tasks and hands
  the worker pool that limit, or 1 when a task text holds a \<^verbatim>\<open>{task_N}\<close> or
  \<^verbatim>\<open>{result_N}\<close> reference; team mode hands the DAG executor \<open>min(R', 8)\<close>, with no clamp
  by the number of items.
\<close>

theorem concurrency_limits:
  "parallelMaxConcurrency requested ts
     = min (min (case requested of None \<Rightarrow> 4 | Some r \<Rightarrow> if r = 0 then 4 else r) 8) (int (length ts))
   \<and> parallelPoolLimit requested ts
     = (if hasCrossRefs ts then 1
        else min (min (case requested of None \<Rightarrow> 4 | Some r \<Rightarrow> if r = 0 then 4 else r) 8) (int (length ts)))
   \<and> teamMaxConc t
     = min (case TeamConfig.maxConcurrency t of None \<Rightarrow> 4 | Some r \<Rightarrow> if r = 0 then 4 else r) 8"
  by (simp add: parallelMaxConcurrency_def parallelPoolLimit_def teamMaxConc_def orDefaultConcurrency_def
      MAX_CONCURRENCY_def DEFAULT_CONCURRENCY_def split: option.splits)

text \<open>
  C7 as stated fails. Two parallel tasks of which the second refers to \<^verbatim>\<open>{result_0}\<close>
  run with limit 1, where \<open>min(4, 8, 2) = 2\<close>; a team of two with a requested
  concurrency of 5 is run with limit 5, where \<open>min(5, 8, 2) = 2\<close>.
\<close>

theorem concurrency_counterexample:
  "hasCrossRefs C7_tasks
   \<and> parallelPoolLimit None C7_tasks = 1
   \<and> min (min DEFAULT_CONCURRENCY MAX_CONCURRENCY) (int (length C7_tasks)) = 2
   \<and> length (members C7_team) = 2
   \<and> teamMaxConc C7_team = 5
   \<and> min (min 5 MAX_CONCURRENCY) (int (length (members C7_team))) = 2"
  by (simp add: hasCrossRefs_def C7_tasks_def C7_team_def parallelPoolLimit_def teamMaxConc_def
      orDefaultConcurrency_def crossRefAt_def digitsThenBrace_def isDigit_def
      MAX_CONCURRENCY_def DEFAULT_CONCURRENCY_def js_def)

subsection \<open>Chain mode\<close>

lemma expandReplacement_plain:
  "0x24 \<notin> set r \<Longrightarrow> expandReplacement m b a r = r"
  by (induction m b a r rule: expandReplacement.induct) auto

lemma replaceFrom_plain:
  "0x24 \<notin> set r \<Longrightarrow> replaceFrom r b s = substitutePrevious r s"
  by (induction r b s rule: replaceFrom.induct) (auto simp: expandReplacement_plain)

lemma replacePrevious_plain:
  "0x24 \<notin> set previousOutput \<Longrightarrow> replacePrevious t previousOutput = substitutePrevious previousOutput t"
  by (simp add: replacePrevious_def replaceFrom_plain)

lemma task_stepOptions:
  "ExecutorOptions.task (stepOptions env params st i prev) = replacePrevious (ChainStep.task st) prev"
  by (simp add: stepOptions_def Let_def)

lemma step_stepOptions:
  "ExecutorOptions.step (stepOptions env params st i prev) = Some (i + 1)"
  by (simp add: stepOptions_def Let_def)

lemma chainLoop_trace:
  "\<exists>new. snd (chainLoop env params steps i prev rs calls) = calls @ new
     \<and> results (fst (chainLoop env params steps i prev rs calls)) = rs @ map (executor env) new
     \<and> length new \<le> length steps
     \<and> (\<forall>k<length new. new ! k = stepOptions env params (steps ! k) (i + k)
                              (if k = 0 then prev else output (executor env (new ! (k - 1)))))
     \<and> (\<forall>k<length new. runFailed (executor env (new ! k)) \<longrightarrow> Suc k = length new)
     \<and> (if new \<noteq> [] \<and> runFailed (executor env (last new))
         then text (fst (chainLoop env params steps i prev rs calls))
                = stoppedText (i + length new) (executor env (last new))
              \<and> isError (fst (chainLoop env params steps i prev rs calls))
         else length new = length steps
              \<and> text (fst (chainLoop env params steps i prev rs calls))
                  = (if rs @ map (executor env) new = [] then js ''(no output)''
                     else orElse (Some (output (last (rs @ map (executor env) new)))) (js ''(no output)''))
              \<and> \<not> isError (fst (chainLoop env params steps i prev rs calls)))"
proof (induction steps arbitrary: i prev rs calls)
  case Nil
  show ?case by (rule exI[of _ "[]"]) (simp add: makeDetails_def)
next
  case (Cons st rest)
  let ?o = "stepOptions env params st i prev"
  let ?r = "executor env ?o"
  show ?case
  proof (cases "runFailed ?r")
    case True
    then have eq: "chainLoop env params (st # rest) i prev rs calls
        = (makeDetails env ModeChain (rs @ [?r]) (stoppedText (i + 1) ?r) True, calls @ [?o])"
      by (simp add: runFailed_def stoppedText_def Let_def)
    show ?thesis
      unfolding eq by (rule exI[of _ "[?o]"]) (use True in \<open>simp add: makeDetails_def\<close>)
  next
    case False
    then have eq: "chainLoop env params (st # rest) i prev rs calls
        = chainLoop env params rest (i + 1) (output ?r) (rs @ [?r]) (calls @ [?o])"
      by (simp add: runFailed_def Let_def)
    from Cons.IH[of "i + 1" "output ?r" "rs @ [?r]" "calls @ [?o]"]
    obtain new where n:
      "snd (chainLoop env params rest (i + 1) (output ?r) (rs @ [?r]) (calls @ [?o])) = (calls @ [?o]) @ new"
      "results (fst (chainLoop env params rest (i + 1) (output ?r) (rs @ [?r]) (calls @ [?o])))
         = (rs @ [?r]) @ map (executor env) new"
      "length new \<le> length rest"
      "\<forall>k<length new. new ! k = stepOptions env params (rest ! k) (i + 1 + k)
                              (if k = 0 then output ?r else output (executor env (new ! (k - 1))))"
      "\<forall>k<length new. runFailed (executor env (new ! k)) \<longrightarrow> Suc k = length new"
      "if new \<noteq> [] \<and> runFailed (executor env (last new))
         then text (fst (chainLoop env params rest (i + 1) (output ?r) (rs @ [?r]) (calls @ [?o])))
                = stoppedText (i + 1 + length new) (executor env (last new))
              \<and> isError (fst (chainLoop env params rest (i + 1) (output ?r) (rs @ [?r]) (calls @ [?o])))
         else length new = length rest
              \<and> text (fst (chainLoop env params rest (i + 1) (output ?r) (rs @ [?r]) (calls @ [?o])))
                  = (if (rs @ [?r]) @ map (executor env) new = [] then js ''(no output)''
                     else orElse (Some (output (last ((rs @ [?r]) @ map (executor env) new)))) (js ''(no output)''))
              \<and> \<not> isError (fst (chainLoop env params rest (i + 1) (output ?r) (rs @ [?r]) (calls @ [?o])))"
      by blast
    have nth: "\<forall>k<length (?o # new). (?o # new) ! k = stepOptions env params ((st # rest) ! k) (i + k)
                              (if k = 0 then prev else output (executor env ((?o # new) ! (k - 1))))"
    proof (intro allI impI)
      fix k assume k: "k < length (?o # new)"
      show "(?o # new) ! k = stepOptions env params ((st # rest) ! k) (i + k)
                              (if k = 0 then prev else output (executor env ((?o # new) ! (k - 1))))"
      proof (cases k)
        case 0 then show ?thesis by simp
      next
        case (Suc j)
        then have j: "j < length new" using k by simp
        show ?thesis using n(4) j Suc by (cases j) auto
      qed
    qed
    have fl: "\<forall>k<length (?o # new). runFailed (executor env ((?o # new) ! k)) \<longrightarrow> Suc k = length (?o # new)"
    proof (intro allI impI)
      fix k assume k: "k < length (?o # new)" and f: "runFailed (executor env ((?o # new) ! k))"
      show "Suc k = length (?o # new)"
      proof (cases k)
        case 0 then show ?thesis using f False by simp
      next
        case (Suc j)
        then show ?thesis using n(5) k f by auto
      qed
    qed
    have lastnew: "new \<noteq> [] \<Longrightarrow> last (?o # new) = last new" by simp
    show ?thesis unfolding eq
    proof (rule exI[of _ "?o # new"], intro conjI)
      show "snd (chainLoop env params rest (i + 1) (output ?r) (rs @ [?r]) (calls @ [?o])) = calls @ ?o # new"
        using n(1) by simp
      show "results (fst (chainLoop env params rest (i + 1) (output ?r) (rs @ [?r]) (calls @ [?o]))) = rs @ map (executor env) (?o # new)"
        using n(2) by simp
      show "length (?o # new) \<le> length (st # rest)" using n(3) by simp
      show "\<forall>k<length (?o # new). (?o # new) ! k = stepOptions env params ((st # rest) ! k) (i + k)
                              (if k = 0 then prev else output (executor env ((?o # new) ! (k - 1))))"
        by (rule nth)
      show "\<forall>k<length (?o # new). runFailed (executor env ((?o # new) ! k)) \<longrightarrow> Suc k = length (?o # new)"
        by (rule fl)
      show "if ?o # new \<noteq> [] \<and> runFailed (executor env (last (?o # new)))
         then text (fst (chainLoop env params rest (i + 1) (output ?r) (rs @ [?r]) (calls @ [?o])))
                = stoppedText (i + length (?o # new)) (executor env (last (?o # new)))
              \<and> isError (fst (chainLoop env params rest (i + 1) (output ?r) (rs @ [?r]) (calls @ [?o])))
         else length (?o # new) = length (st # rest)
              \<and> text (fst (chainLoop env params rest (i + 1) (output ?r) (rs @ [?r]) (calls @ [?o])))
                  = (if rs @ map (executor env) (?o # new) = [] then js ''(no output)''
                     else orElse (Some (output (last (rs @ map (executor env) (?o # new))))) (js ''(no output)''))
              \<and> \<not> isError (fst (chainLoop env params rest (i + 1) (output ?r) (rs @ [?r]) (calls @ [?o])))"
      proof (cases "new = []")
        case True
        then show ?thesis using n(6) False by (auto simp: makeDetails_def)
      next
        case ne: False
        then show ?thesis using n(6) by (auto split: if_splits)
      qed
    qed
  qed
qed

text \<open>
  C8, as the code has it. For a non-empty chain whose named agents all exist: one
  executor call is made per step until a step fails; the prompt of step \<open>k\<close> is the step's
  task text put through \<^verbatim>\<open>replace\<close> with the output of step \<open>k - 1\<close> (the empty string for
  the first step), which is the task text with every \<^verbatim>\<open>{previous}\<close> replaced by that
  output whenever the output holds no dollar sign; a step that returns a non-zero exit
  code or is aborted is the last call, and the response is the error response
  \<open>Chain stopped at step k + 1: ...\<close> holding the results so far; when no step fails,
  every step is run and the response text is the last step's output, or \<open>(no output)\<close>
  when that output is empty.
\<close>

theorem chainMode_steps:
  assumes "chain params = Some steps" and "steps \<noteq> []" and "missingAgents env steps = []"
  shows "length (snd (chainMode env params)) \<le> length steps
     \<and> results (fst (chainMode env params)) = map (executor env) (snd (chainMode env params))
     \<and> (\<forall>k<length (snd (chainMode env params)).
           ExecutorOptions.task (snd (chainMode env params) ! k)
             = replacePrevious (ChainStep.task (steps ! k)) (previousOf (results (fst (chainMode env params))) k)
           \<and> (0x24 \<notin> set (previousOf (results (fst (chainMode env params))) k) \<longrightarrow>
              ExecutorOptions.task (snd (chainMode env params) ! k)
                = substitutePrevious (previousOf (results (fst (chainMode env params))) k) (ChainStep.task (steps ! k)))
           \<and> (runFailed (results (fst (chainMode env params)) ! k) \<longrightarrow>
                Suc k = length (snd (chainMode env params))
                \<and> text (fst (chainMode env params)) = stoppedText (Suc k) (results (fst (chainMode env params)) ! k)
                \<and> isError (fst (chainMode env params))))
     \<and> (list_all (\<lambda>r. \<not> runFailed r) (results (fst (chainMode env params))) \<longrightarrow>
           length (snd (chainMode env params)) = length steps
           \<and> text (fst (chainMode env params))
               = orElse (Some (output (last (results (fst (chainMode env params)))))) (js ''(no output)'')
           \<and> \<not> isError (fst (chainMode env params)))"
proof -
  have cm: "chainMode env params = chainLoop env params steps 0 [] [] []"
    using assms by (simp add: chainMode_def)
  from chainLoop_trace[of env params steps 0 "[]" "[]" "[]"]
  obtain new where n:
    "snd (chainMode env params) = new"
    "results (fst (chainMode env params)) = map (executor env) new"
    "length new \<le> length steps"
    "\<forall>k<length new. new ! k = stepOptions env params (steps ! k) k
                              (if k = 0 then [] else output (executor env (new ! (k - 1))))"
    "\<forall>k<length new. runFailed (executor env (new ! k)) \<longrightarrow> Suc k = length new"
    "if new \<noteq> [] \<and> runFailed (executor env (last new))
         then text (fst (chainMode env params)) = stoppedText (length new) (executor env (last new))
              \<and> isError (fst (chainMode env params))
         else length new = length steps
              \<and> text (fst (chainMode env params))
                  = (if map (executor env) new = [] then js ''(no output)''
                     else orElse (Some (output (last (map (executor env) new)))) (js ''(no output)''))
              \<and> \<not> isError (fst (chainMode env params))"
    unfolding cm by auto
  have prev: "\<And>k. k < length new \<Longrightarrow>
      previousOf (map (executor env) new) k = (if k = 0 then [] else output (executor env (new ! (k - 1))))"
    by (simp add: previousOf_def)
  have prompts: "\<And>k. k < length new \<Longrightarrow>
      ExecutorOptions.task (new ! k) = replacePrevious (ChainStep.task (steps ! k)) (previousOf (map (executor env) new) k)"
    using n(4) prev by (simp add: task_stepOptions)
  have stop: "\<And>k. k < length new \<Longrightarrow> runFailed (executor env (new ! k)) \<Longrightarrow>
      Suc k = length new \<and> text (fst (chainMode env params)) = stoppedText (Suc k) (executor env (new ! k))
      \<and> isError (fst (chainMode env params))"
  proof -
    fix k assume k: "k < length new" and f: "runFailed (executor env (new ! k))"
    then have len: "Suc k = length new" using n(5) by blast
    then have "new \<noteq> []" by auto
    then have "last new = new ! (length new - 1)" by (rule last_conv_nth)
    with len have "last new = new ! k" by (metis diff_Suc_1)
    note \<open>new \<noteq> []\<close> this
    with n(6) f len show "Suc k = length new \<and> text (fst (chainMode env params)) = stoppedText (Suc k) (executor env (new ! k))
      \<and> isError (fst (chainMode env params))" by simp
  qed
  have fin: "list_all (\<lambda>r. \<not> runFailed r) (map (executor env) new) \<Longrightarrow>
      length new = length steps
      \<and> text (fst (chainMode env params)) = orElse (Some (output (last (map (executor env) new)))) (js ''(no output)'')
      \<and> \<not> isError (fst (chainMode env params))"
  proof -
    assume ok: "list_all (\<lambda>r. \<not> runFailed r) (map (executor env) new)"
    have "\<not> (new \<noteq> [] \<and> runFailed (executor env (last new)))"
      using ok by (auto simp: list_all_iff)
    with n(6) have e: "length new = length steps"
      "text (fst (chainMode env params))
                  = (if map (executor env) new = [] then js ''(no output)''
                     else orElse (Some (output (last (map (executor env) new)))) (js ''(no output)''))"
      "\<not> isError (fst (chainMode env params))" by auto
    from e(1) assms(2) have "new \<noteq> []" by auto
    with e show ?thesis by simp
  qed
  show ?thesis
    unfolding n(1) n(2)
    using n(3) prompts stop fin by (auto simp: replacePrevious_plain)
qed

text \<open>The chain on concrete inputs.\<close>

lemma echo_chain:
  "chainMode echoEnv C8_params
   = (\<lparr>text = js ''echo emit FOO'', mode = ModeChain,
       results = map (executor echoEnv) (snd (chainMode echoEnv C8_params)),
       totalDurationMs = 7, isError = False\<rparr>,
      snd (chainMode echoEnv C8_params))
   \<and> map ExecutorOptions.task (snd (chainMode echoEnv C8_params)) = [js ''emit FOO'', js ''echo emit FOO'']"
  by (simp add: echoEnv_def C8_params_def C8_steps_def chain_eval)

lemma silent_chain:
  "text (fst (chainMode silentEnv C8_single_step)) = js ''(no output)''
   \<and> map output (results (fst (chainMode silentEnv C8_single_step))) = [[]]
   \<and> map exitCode (results (fst (chainMode silentEnv C8_single_step))) = [0]
   \<and> map TaskResult.aborted (results (fst (chainMode silentEnv C8_single_step))) = [False]"
  by (simp add: silentEnv_def C8_single_step_def chain_eval)

lemma failing_chain:
  "text (fst (chainMode failingEnv C8_params)) = js ''Chain stopped at step 1: boom''
   \<and> length (snd (chainMode failingEnv C8_params)) = 1"
  by (simp add: failingEnv_def C8_params_def C8_steps_def chain_eval)

text \<open>A previous output that holds \<^verbatim>\<open>$&\<close> and \<^verbatim>\<open>$$\<close> is not inserted as it is.\<close>

lemma pattern_example:
  "replacePrevious (js ''see {previous}!'') (js ''a$&b$$c'') = js ''see a{previous}b$c!''"
  by (simp add: replacePrevious_def PREVIOUS_def js_def)

text \<open>
  The theorem on a chain of two steps run by the echoing executor, and by the failing one.
\<close>

theorem chainMode_steps_witness:
  "ExecutorOptions.task (snd (chainMode echoEnv C8_params) ! Suc 0)
     = substitutePrevious (js ''emit FOO'') (js ''echo {previous}'')
   \<and> length (snd (chainMode echoEnv C8_params)) = length C8_steps
   \<and> text (fst (chainMode echoEnv C8_params)) = js ''echo emit FOO''
   \<and> text (fst (chainMode failingEnv C8_params)) = js ''Chain stopped at step 1: boom''
   \<and> length (snd (chainMode failingEnv C8_params)) = 1"
proof -
  have c: "chain C8_params = Some C8_steps" "C8_steps \<noteq> []"
    by (simp_all add: C8_params_def C8_steps_def noParams_def)
  have m: "missingAgents echoEnv C8_steps = []" "missingAgents failingEnv C8_steps = []"
    by (simp_all add: missingAgents_def echoEnv_def failingEnv_def stubEnv_def C8_steps_def plainStep_def truthy_def)
  note E = chainMode_steps[OF c m(1)]
  note F = chainMode_steps[OF c m(2)]
  have len: "length (snd (chainMode echoEnv C8_params)) = 2"
    using echo_chain by (metis length_map list.size(3,4) One_nat_def Suc_1 add.commute plus_1_eq_Suc)
  have res: "results (fst (chainMode echoEnv C8_params)) = map (executor echoEnv) (snd (chainMode echoEnv C8_params))"
    using E by blast
  have outs: "map output (results (fst (chainMode echoEnv C8_params))) = [js ''emit FOO'', js ''echo emit FOO'']"
    using echo_chain unfolding res by (simp add: echoEnv_def stubEnv_def stubResult_def comp_def)
  have codes: "list_all (\<lambda>r. \<not> runFailed r) (results (fst (chainMode echoEnv C8_params)))"
    unfolding res by (simp add: list_all_iff runFailed_def echoEnv_def stubEnv_def stubResult_def)
  have p1: "previousOf (results (fst (chainMode echoEnv C8_params))) (Suc 0) = js ''emit FOO''"
  proof -
    have "length (results (fst (chainMode echoEnv C8_params))) = 2" using len res by simp
    then have "output (results (fst (chainMode echoEnv C8_params)) ! 0)
               = map output (results (fst (chainMode echoEnv C8_params))) ! 0" by simp
    then show ?thesis by (simp add: previousOf_def outs)
  qed
  have nodollar: "0x24 \<notin> set (previousOf (results (fst (chainMode echoEnv C8_params))) (Suc 0))"
    unfolding p1 by (simp add: js_def)
  have s1: "ChainStep.task (C8_steps ! Suc 0) = js ''echo {previous}''"
    by (simp add: C8_steps_def plainStep_def)
  have k1: "Suc 0 < length (snd (chainMode echoEnv C8_params))" using len by simp
  note Q = E[THEN conjunct2, THEN conjunct2, THEN conjunct1, rule_format, OF k1]
  from Q nodollar have
    "ExecutorOptions.task (snd (chainMode echoEnv C8_params) ! Suc 0)
       = substitutePrevious (previousOf (results (fst (chainMode echoEnv C8_params))) (Suc 0)) (ChainStep.task (C8_steps ! Suc 0))"
    by blast
  then have a: "ExecutorOptions.task (snd (chainMode echoEnv C8_params) ! Suc 0)
     = substitutePrevious (js ''emit FOO'') (js ''echo {previous}'')"
    by (simp only: p1 s1)
  from E codes have b: "length (snd (chainMode echoEnv C8_params)) = length C8_steps"
    and t: "text (fst (chainMode echoEnv C8_params))
            = orElse (Some (output (last (results (fst (chainMode echoEnv C8_params)))))) (js ''(no output)'')"
    by blast+
  have "results (fst (chainMode echoEnv C8_params)) \<noteq> []" using len res by auto
  then have "output (last (results (fst (chainMode echoEnv C8_params))))
        = last (map output (results (fst (chainMode echoEnv C8_params))))"
    by (rule last_map[symmetric])
  with t have d: "text (fst (chainMode echoEnv C8_params)) = js ''echo emit FOO''"
    by (simp add: outs orElse_def js_def)
  have flen: "0 < length (snd (chainMode failingEnv C8_params))"
    using failing_chain by simp
  have fres: "results (fst (chainMode failingEnv C8_params))
              = map (executor failingEnv) (snd (chainMode failingEnv C8_params))"
    using F by blast
  have ff: "runFailed (results (fst (chainMode failingEnv C8_params)) ! 0)"
    unfolding fres using flen by (simp add: runFailed_def failingEnv_def stubEnv_def stubResult_def)
  note R = F[THEN conjunct2, THEN conjunct2, THEN conjunct1, rule_format, OF flen]
  from R ff have e: "Suc 0 = length (snd (chainMode failingEnv C8_params))"
    and g: "text (fst (chainMode failingEnv C8_params))
            = stoppedText (Suc 0) (results (fst (chainMode failingEnv C8_params)) ! 0)"
    by blast+
  have "stoppedText (Suc 0) (results (fst (chainMode failingEnv C8_params)) ! 0)
        = js ''Chain stopped at step 1: boom''"
    unfolding fres using flen
    by (simp add: stoppedText_def failingEnv_def stubEnv_def stubResult_def orElse_def js_def)
  with g have h: "text (fst (chainMode failingEnv C8_params)) = js ''Chain stopped at step 1: boom''"
    by simp
  from a b d h e show ?thesis by simp
qed

text \<open>
  C8 as stated fails: a chain of one step that succeeds with an empty output answers
  \<open>(no output)\<close>, which is not the last step's output.
\<close>

theorem chain_empty_output_counterexample:
  "list_all (\<lambda>r. exitCode r = 0 \<and> \<not> TaskResult.aborted r) (results (fst (chainMode silentEnv C8_single_step)))
   \<and> output (last (results (fst (chainMode silentEnv C8_single_step)))) = []
   \<and> text (fst (chainMode silentEnv C8_single_step)) = js ''(no output)''
   \<and> text (fst (chainMode silentEnv C8_single_step))
       \<noteq> output (last (results (fst (chainMode silentEnv C8_single_step))))"
  by (simp add: silentEnv_def C8_single_step_def chain_eval)

section \<open>Properties of the DAG engine\<close>

subsection \<open>Review decisions\<close>

text \<open>
  The last line of a trimmed string that is not empty is not blank, so the loop of
  \<^verbatim>\<open>parseReviewDecision\<close> never looks further than the last line.
\<close>

lemma trim_last_not_space:
  "trim s \<noteq> [] \<Longrightarrow> \<not> isWhiteSpace (last (trim s))"
proof -
  assume ne: "trim s \<noteq> []"
  let ?d = "dropWhile isWhiteSpace (rev (dropWhile isWhiteSpace s))"
  from ne have d: "?d \<noteq> []" by (simp add: trim_def)
  then have "\<not> isWhiteSpace (hd ?d)" by (rule hd_dropWhile)
  moreover have "last (trim s) = hd ?d" using d by (simp add: trim_def last_rev)
  ultimately show ?thesis by simp
qed

lemma trim_nonempty:
  assumes "l \<noteq> []" "\<not> isWhiteSpace (last l)"
  shows "trim l \<noteq> []"
proof -
  have "l = butlast l @ [last l]" using assms(1) by simp
  then have "dropWhile isWhiteSpace l = dropWhile isWhiteSpace (butlast l) @ [last l]"
    using assms(2) by (metis dropWhile_append3)
  then have "rev (dropWhile isWhiteSpace l) = last l # rev (dropWhile isWhiteSpace (butlast l))"
    by simp
  then show ?thesis using assms(2) by (simp add: trim_def)
qed

lemma last_split_nl:
  "s \<noteq> [] \<Longrightarrow> last s \<noteq> 0x0A \<Longrightarrow> last (split_nl s) \<noteq> [] \<and> last (last (split_nl s)) = last s"
proof (induction s)
  case Nil then show ?case by simp
next
  case (Cons c cs)
  show ?case
  proof (cases "cs = []")
    case True
    with Cons.prems show ?thesis by simp
  next
    case False
    with Cons have ih: "last (split_nl cs) \<noteq> []" "last (last (split_nl cs)) = last cs" by auto
    obtain l ls where sp: "split_nl cs = l # ls" using split_nl_nonempty[of cs] by (cases "split_nl cs") auto
    show ?thesis
    proof (cases "ls = []")
      case True
      with sp ih False show ?thesis by auto
    next
      case ne: False
      with sp ih False show ?thesis by auto
    qed
  qed
qed

lemma last_line_not_blank:
  assumes "trim out \<noteq> []"
  shows "trim (last (split_nl (trim out))) \<noteq> []"
proof -
  have ns: "\<not> isWhiteSpace (last (trim out))" using assms by (rule trim_last_not_space)
  then have "last (trim out) \<noteq> 0x0A" by (auto simp: isWhiteSpace_def)
  with assms have "last (split_nl (trim out)) \<noteq> []"
      "last (last (split_nl (trim out))) = last (trim out)"
    using last_split_nl by blast+
  with ns show ?thesis by (intro trim_nonempty) auto
qed

lemma scanMarker_last:
  assumes "ls \<noteq> []" "trim (last ls) \<noteq> []"
  shows "scanMarker ls (length ls)
         = (if trim (last ls) = APPROVED
            then Some \<lparr>approved = True, feedback = trim (join_nl (butlast ls))\<rparr>
            else if trim (last ls) = REVISION_NEEDED
            then Some \<lparr>approved = False, feedback = trim (join_nl (butlast ls))\<rparr>
            else None)"
proof -
  obtain n where n: "length ls = Suc n" using assms(1) by (cases ls) auto
  then have l: "ls ! n = last ls" using assms(1) by (simp add: last_conv_nth)
  have b: "take n ls = butlast ls" using n by (simp add: butlast_conv_take)
  show ?thesis unfolding n using assms(2) by (simp add: l b Let_def)
qed

text \<open>
  C4, as the code has it. \<^verbatim>\<open>parseReviewDecision\<close> returns on every string. With the
  surrounding white space removed from the last line of the trimmed input: if that is
  \<open>APPROVED\<close> the decision is approved, if it is \<open>REVISION_NEEDED\<close> the decision is not
  approved, and in both cases the feedback is the lines before the last, joined by
  newlines and trimmed. Otherwise the decision is approved when the last 200 code units,
  in lower case, contain \<open>approved\<close> and neither \<open>not approved\<close> nor \<open>revision\<close>, and not
  approved in every other case; the feedback is then the whole trimmed input.
\<close>

theorem parseReviewDecision_cases:
  "parseReviewDecision lower out =
     (if trim (last (split_nl (trim out))) = js ''APPROVED''
      then \<lparr>approved = True, feedback = trim (join_nl (butlast (split_nl (trim out))))\<rparr>
      else if trim (last (split_nl (trim out))) = js ''REVISION_NEEDED''
      then \<lparr>approved = False, feedback = trim (join_nl (butlast (split_nl (trim out))))\<rparr>
      else if jsIncludes (lower (sliceLast 200 (trim out))) (js ''approved'')
              \<and> \<not> jsIncludes (lower (sliceLast 200 (trim out))) (js ''not approved'')
              \<and> \<not> jsIncludes (lower (sliceLast 200 (trim out))) (js ''revision'')
      then \<lparr>approved = True, feedback = trim out\<rparr>
      else \<lparr>approved = False, feedback = trim out\<rparr>)"
proof (cases "trim out = []")
  case True
  have "trim [] = ([]::jsstring)" by (simp add: trim_def)
  moreover have "[] \<noteq> js ''APPROVED''" "[] \<noteq> js ''REVISION_NEEDED''" by (simp_all add: js_def)
  ultimately show ?thesis
    using True by (simp add: parseReviewDecision_def wordsDecision_def Let_def)
next
  case False
  then have "trim (last (split_nl (trim out))) \<noteq> []" by (rule last_line_not_blank)
  then have "scanMarker (split_nl (trim out)) (length (split_nl (trim out)))
         = (if trim (last (split_nl (trim out))) = APPROVED
            then Some \<lparr>approved = True, feedback = trim (join_nl (butlast (split_nl (trim out))))\<rparr>
            else if trim (last (split_nl (trim out))) = REVISION_NEEDED
            then Some \<lparr>approved = False, feedback = trim (join_nl (butlast (split_nl (trim out))))\<rparr>
            else None)"
    using split_nl_nonempty by (intro scanMarker_last) auto
  then show ?thesis
    by (simp add: parseReviewDecision_def wordsDecision_def Let_def APPROVED_def REVISION_NEEDED_def)
qed

text \<open>The equations that evaluate the parser on concrete inputs, and some inputs.\<close>

lemmas parse_eval = parseReviewDecision_def wordsDecision_def APPROVED_def REVISION_NEEDED_def
  trim_def isWhiteSpace_def sliceLast_def asciiLower_def js_def Let_def

lemma parse_examples:
  "parseReviewDecision asciiLower (js ''Looks good.\<newline>\<newline>APPROVED\<newline>'')
     = \<lparr>approved = True, feedback = js ''Looks good.''\<rparr>"
  "parseReviewDecision asciiLower (js ''Missing tests.\<newline>REVISION_NEEDED'')
     = \<lparr>approved = False, feedback = js ''Missing tests.''\<rparr>"
  "parseReviewDecision asciiLower (js ''I consider this Approved, nice work'')
     = \<lparr>approved = True, feedback = js ''I consider this Approved, nice work''\<rparr>"
  "parseReviewDecision asciiLower (js ''This is not approved yet'')
     = \<lparr>approved = False, feedback = js ''This is not approved yet''\<rparr>"
  "parseReviewDecision asciiLower [] = \<lparr>approved = False, feedback = []\<rparr>"
  by (simp_all add: parse_eval)


text \<open>
  C4 as stated fails. The last line of \<open>no revision needed\<newline> APPROVED\<close> is \<open> APPROVED\<close>,
  which is neither marker exactly, and the last 200 code units contain \<open>revision\<close>: by
  the claim the decision is not approved. The parser trims the line before it compares,
  and approves, with the first line as feedback.
\<close>

theorem parseReviewDecision_indented_marker:
  "last (split_nl (trim C4_input)) \<noteq> js ''APPROVED''
   \<and> last (split_nl (trim C4_input)) \<noteq> js ''REVISION_NEEDED''
   \<and> jsIncludes (asciiLower (sliceLast 200 (trim C4_input))) (js ''revision'')
   \<and> Decision.approved (parseReviewDecision asciiLower C4_input)
   \<and> feedback (parseReviewDecision asciiLower C4_input) = js ''no revision needed''"
  by (simp add: C4_input_def parse_eval)

subsection \<open>The review cycle\<close>

lemma reviewIteration_continue:
  "reviewInv maxIter s \<Longrightarrow> reviewIteration env maxIter s = (None, s') \<Longrightarrow> reviewInv maxIter s'"
  by (cases s)
     (auto simp: reviewIteration_def reviewInv_def Let_def split: option.splits if_splits)

lemma reviewIteration_exit:
  "reviewInv maxIter s \<Longrightarrow> reviewIteration env maxIter s = (Some e, s') \<Longrightarrow>
   e \<noteq> LoopEnded \<and> e \<noteq> Threw \<and> (e = ReviewDone \<longrightarrow> reviewSettled maxIter (fst s'))"
  by (cases s)
     (auto simp: reviewIteration_def reviewInv_def reviewSettled_def Let_def split: option.splits if_splits)

lemma reviewLoop_exit:
  "reviewInv maxIter s \<Longrightarrow> reviewLoop env maxIter s = (e, s') \<Longrightarrow>
   e \<noteq> LoopEnded \<and> e \<noteq> Threw \<and> (e = ReviewDone \<longrightarrow> reviewSettled maxIter (fst s'))"
proof (induction env maxIter s rule: reviewLoop.induct)
  case (1 env maxIter s)
  obtain x t where it: "reviewIteration env maxIter s = (x, t)" by (cases "reviewIteration env maxIter s")
  show ?case
  proof (cases x)
    case None
    with it 1(2) have inv: "reviewInv maxIter t" using reviewIteration_continue by blast
    from it None 1(3) have "reviewLoop env maxIter t = (e, s')"
      by (subst (asm) reviewLoop.simps) simp
    with 1(1)[OF it[symmetric, unfolded None] refl inv] None it show ?thesis by simp
  next
    case (Some e0)
    with it 1(3) have "e = e0" "s' = t" by (subst (asm) reviewLoop.simps, simp)+
    with it Some 1(2) show ?thesis using reviewIteration_exit by blast
  qed
qed

text \<open>
  With a whole number of iterations, at least one, the cycle never leaves its loop by the
  loop's condition; when it ends with the review done (not by an abort or a failed run)
  the node is settled.
\<close>

lemma runReviewCycle_settles:
  assumes "1 \<le> maxIter"
    and "maxIter = (case ReviewConfig.maxIterations rv of None \<Rightarrow> DEFAULT_MAX_ITERATIONS | Some m \<Rightarrow> m)"
    and "DagNode.iteration node = Some 1" and "DagNode.reviewHistory node = Some []"
    and "DagNode.iterationResults node = Some irs"
    and "runReviewCycle env rv (node, rs, clk) = (e, s')"
  shows "e \<noteq> LoopEnded \<and> e \<noteq> Threw \<and> (e = ReviewDone \<longrightarrow> reviewSettled maxIter (fst s'))"
proof -
  have loop: "reviewLoop env maxIter (node, rs, clk) = (e, s')"
    using assms(2-6) by (simp add: runReviewCycle_def Let_def)
  have "reviewInv maxIter (node, rs, clk)"
    using assms(1,3,4,5) by (simp add: reviewInv_def)
  then show ?thesis using loop by (rule reviewLoop_exit)
qed

subsection \<open>The invariant of a run\<close>

lemma map_of_updateNode:
  "map_of (updateNode k f ns) x = (if x = k then map_option f (map_of ns x) else map_of ns x)"
  by (induction ns) (auto simp: updateNode_def)

lemma keys_updateNode: "map fst (updateNode k f ns) = map fst ns"
  by (induction ns) (auto simp: updateNode_def)

lemma statusOf_updateNode:
  "statusOf (updateNode k f ns) x
   = (if x = k then map_option (\<lambda>n. DagNode.status (f n)) (map_of ns x) else statusOf ns x)"
  by (simp add: statusOf_def map_of_updateNode option.map_comp comp_def)

lemma set_updateNode:
  "(x, m) \<in> set (updateNode k f ns) \<Longrightarrow>
   (x \<noteq> k \<and> (x, m) \<in> set ns) \<or> (x = k \<and> (\<exists>n. (k, n) \<in> set ns \<and> m = f n))"
  by (auto simp: updateNode_def split: if_splits)

lemma dagInv_entry:
  "dagInv ns st \<Longrightarrow> map_of ns k = Some n \<Longrightarrow> nodeOk ns st (k, n)"
  by (auto simp: dagInv_def list_all_iff dest: map_of_SomeD)

lemma completed_updateNode:
  assumes "statusOf ns d = Some Completed"
    and "\<And>n. map_of ns k = Some n \<Longrightarrow> DagNode.status n = Completed \<Longrightarrow> DagNode.status (f n) = Completed"
  shows "statusOf (updateNode k f ns) d = Some Completed"
proof (cases "d = k")
  case True
  from assms(1) obtain z where z: "map_of ns d = Some z" "DagNode.status z = Completed"
    by (auto simp: statusOf_def)
  with True assms(2) have "DagNode.status (f z) = Completed" by simp
  with True z show ?thesis by (simp add: statusOf_def map_of_updateNode)
next
  case False
  with assms(1) show ?thesis by (simp add: statusOf_def map_of_updateNode)
qed

lemma allDepsComplete_updateNode:
  assumes "allDepsComplete ns m"
    and "\<And>n. map_of ns k = Some n \<Longrightarrow> DagNode.status n = Completed \<Longrightarrow> DagNode.status (f n) = Completed"
  shows "allDepsComplete (updateNode k f ns) m"
proof -
  have "statusOf (updateNode k f ns) d = Some Completed" if "statusOf ns d = Some Completed" for d
    using that assms(2) by (rule completed_updateNode)
  with assms(1) show ?thesis
    unfolding allDepsComplete_def list_all_iff by blast
qed

lemma dagInv_updateNode:
  assumes inv: "dagInv ns st"
    and look: "map_of ns k = Some n"
    and comp: "DagNode.status n = Completed \<Longrightarrow> DagNode.status (f n) = Completed"
    and deps: "DagNode.dependsOn (f n) = DagNode.dependsOn n"
    and ident: "TeamTask.id' (DagNode.task (f n)) = TeamTask.id' (DagNode.task n)"
    and ok: "allDepsComplete ns n \<or> (idle (f n) \<and> k \<notin> set st)"
  shows "dagInv (updateNode k f ns) st"
proof -
  have dist: "distinct (map fst ns)" using inv by (simp add: dagInv_def)
  have keep: "\<And>m. allDepsComplete ns m \<Longrightarrow> allDepsComplete (updateNode k f ns) m"
    using look comp by (intro allDepsComplete_updateNode) auto
  have "nodeOk (updateNode k f ns) st (x, m)" if mem: "(x, m) \<in> set (updateNode k f ns)" for x m
  proof -
    from set_updateNode[OF mem] show ?thesis
    proof
      assume a: "x \<noteq> k \<and> (x, m) \<in> set ns"
      then have "nodeOk ns st (x, m)" using inv by (auto simp: dagInv_def list_all_iff)
      then show ?thesis using keep by (auto simp: nodeOk_def)
    next
      assume "x = k \<and> (\<exists>n'. (k, n') \<in> set ns \<and> m = f n')"
      then obtain n' where b: "x = k" "(k, n') \<in> set ns" "m = f n'" by blast
      from b(2) dist have "map_of ns k = Some n'" by simp
      with look have n': "n' = n" by simp
      have okn: "nodeOk ns st (k, n)" using inv look by (rule dagInv_entry)
      have "allDepsComplete ns (f n) = allDepsComplete ns n"
        by (simp add: allDepsComplete_def deps)
      with ok keep[of "f n"] have "allDepsComplete (updateNode k f ns) (f n) \<or> (idle (f n) \<and> k \<notin> set st)"
        by auto
      with okn ident b n' show ?thesis by (simp add: nodeOk_def)
    qed
  qed
  then have "list_all (nodeOk (updateNode k f ns) st) (updateNode k f ns)"
    by (auto simp: list_all_iff)
  with dist show ?thesis by (simp add: dagInv_def keys_updateNode)
qed

lemma updateNode_missing: "map_of ns k = None \<Longrightarrow> updateNode k f ns = ns"
proof -
  assume "map_of ns k = None"
  then have "k \<notin> fst ` set ns" by (simp add: map_of_eq_None_iff)
  then have "\<And>e. e \<in> set ns \<Longrightarrow> (case e of (k', n) \<Rightarrow> if k' = k then (k', f n) else (k', n)) = e"
    by force
  then show ?thesis unfolding updateNode_def by (simp add: map_idI)
qed

lemma failed_not_all_complete:
  "anyDepFailed ns n \<Longrightarrow> \<not> allDepsComplete ns n"
  unfolding anyDepFailed_def allDepsComplete_def list_ex_iff list_all_iff by fastforce

lemma readiness_step_inv:
  assumes "dagInv ns st"
  shows "dagInv (updateNode k (readiness ns) ns) st"
proof (cases "map_of ns k")
  case None
  then show ?thesis using assms by (simp add: updateNode_missing)
next
  case (Some n)
  have okn: "nodeOk ns st (k, n)" using assms Some by (rule dagInv_entry)
  show ?thesis
  proof (rule dagInv_updateNode[OF assms Some])
    show "DagNode.status n = Completed \<Longrightarrow> DagNode.status (readiness ns n) = Completed"
      by (simp add: readiness_def)
    show "DagNode.dependsOn (readiness ns n) = DagNode.dependsOn n"
      by (simp add: readiness_def)
    show "TeamTask.id' (DagNode.task (readiness ns n)) = TeamTask.id' (DagNode.task n)"
      by (simp add: readiness_def)
    show "allDepsComplete ns n \<or> (idle (readiness ns n) \<and> k \<notin> set st)"
      using okn failed_not_all_complete[of ns n]
      by (auto simp: nodeOk_def readiness_def idle_def)
  qed
qed

lemma fold_readiness_inv:
  "dagInv ns st \<Longrightarrow> dagInv (fold (\<lambda>k ns. updateNode k (readiness ns) ns) ks ns) st"
  by (induction ks arbitrary: ns) (auto simp: readiness_step_inv)

lemma updateReadyState_inv: "dagInv ns st \<Longrightarrow> dagInv (updateReadyState ns) st"
  by (simp add: updateReadyState_def fold_readiness_inv)

lemma reviewIteration_frame:
  "reviewIteration env maxIter s = (x, s') \<Longrightarrow>
   DagNode.dependsOn (fst s') = DagNode.dependsOn (fst s) \<and> DagNode.task (fst s') = DagNode.task (fst s)"
  by (cases s)
     (auto simp: reviewIteration_def Let_def split: option.splits if_splits)

lemma reviewLoop_frame:
  "reviewLoop env maxIter s = (e, s') \<Longrightarrow>
   DagNode.dependsOn (fst s') = DagNode.dependsOn (fst s) \<and> DagNode.task (fst s') = DagNode.task (fst s)"
proof (induction env maxIter s rule: reviewLoop.induct)
  case (1 env maxIter s)
  obtain x t where it: "reviewIteration env maxIter s = (x, t)" by (cases "reviewIteration env maxIter s")
  note fr = reviewIteration_frame[OF it]
  show ?case
  proof (cases x)
    case None
    from it None 1(2) have "reviewLoop env maxIter t = (e, s')"
      by (subst (asm) reviewLoop.simps) simp
    with 1(1)[OF it[symmetric, unfolded None] refl] fr show ?thesis by simp
  next
    case (Some e0)
    with it 1(2) have "s' = t" by (subst (asm) reviewLoop.simps) simp
    with fr show ?thesis by simp
  qed
qed

lemma runReviewCycle_frame:
  "runReviewCycle env rv s = (e, s') \<Longrightarrow>
   DagNode.dependsOn (fst s') = DagNode.dependsOn (fst s) \<and> DagNode.task (fst s') = DagNode.task (fst s)"
  by (cases s)
     (auto simp: runReviewCycle_def Let_def dest!: reviewLoop_frame split: option.splits if_splits)

lemma processNode_frame:
  "processNode env res s = s' \<Longrightarrow>
   DagNode.dependsOn (fst s') = DagNode.dependsOn (fst s) \<and> DagNode.task (fst s') = DagNode.task (fst s)"
proof (cases s)
  case (fields node rs clk)
  assume p: "processNode env res s = s'"
  show ?thesis
  proof (cases "\<not> runFailed res \<and> \<not> TeamTask.requiresApproval (DagNode.task node)
                \<and> TeamTask.review (DagNode.task node) \<noteq> None")
    case True
    then obtain rv where rv: "TeamTask.review (DagNode.task node) = Some rv" by auto
    let ?n = "node\<lparr>DagNode.result := Some res, DagNode.iteration := Some 1, DagNode.reviewHistory := Some [],
                   DagNode.iterationResults := Some [res]\<rparr>"
    obtain e t where r: "runReviewCycle env rv (?n, rs @ [res], clk) = (e, t)"
      by (cases "runReviewCycle env rv (?n, rs @ [res], clk)")
    from True rv r p fields have "s' = t" by (simp add: processNode_def Let_def)
    with runReviewCycle_frame[OF r] fields show ?thesis by simp
  next
    case False
    with p fields show ?thesis
      by (auto simp: processNode_def Let_def split: option.splits)
  qed
qed

lemma dagInv_started:
  assumes "dagInv ns st"
    and "\<And>k n. k \<in> set ks \<Longrightarrow> map_of ns k = Some n \<Longrightarrow> allDepsComplete ns n"
  shows "dagInv ns (st @ ks)"
proof -
  have "nodeOk ns (st @ ks) (k, n)" if mem: "(k, n) \<in> set ns" for k n
  proof -
    from assms(1) mem have ok: "nodeOk ns st (k, n)" and look: "map_of ns k = Some n"
      by (auto simp: dagInv_def list_all_iff)
    show ?thesis
    proof (cases "k \<in> set ks")
      case True
      with assms(2) look ok show ?thesis by (auto simp: nodeOk_def)
    next
      case False
      with ok show ?thesis by (auto simp: nodeOk_def)
    qed
  qed
  with assms(1) show ?thesis by (auto simp: dagInv_def list_all_iff)
qed

lemma active_deps:
  "dagInv ns st \<Longrightarrow> map_of ns k = Some n \<Longrightarrow> \<not> idle n \<Longrightarrow> allDepsComplete ns n"
  using dagInv_entry[of ns st k n] by (auto simp: nodeOk_def)

lemma markRunning_fold_eq:
  "fold (\<lambda>(k, n) ns. updateNode k (\<lambda>m. m\<lparr>DagNode.status := Running\<rparr>) ns) batch ns = fold markRunning batch ns"
proof -
  have "(\<lambda>(k, n) ns. updateNode k (\<lambda>m. m\<lparr>DagNode.status := Running\<rparr>) ns) = markRunning"
    by (auto simp: markRunning_def fun_eq_iff)
  then show ?thesis by simp
qed

lemma markRunning_step:
  assumes "dagInv ns st" "startable ns (fst e)"
  shows "dagInv (markRunning e ns) st"
proof -
  from assms(2) obtain m where m: "map_of ns (fst e) = Some m"
      "DagNode.status m = Ready \<or> DagNode.status m = Running"
    by (auto simp: startable_def statusOf_def)
  then have "\<not> idle m" by (auto simp: idle_def)
  with assms(1) m(1) have "allDepsComplete ns m" by (rule active_deps)
  with assms(1) m show ?thesis
    unfolding markRunning_def by (intro dagInv_updateNode[where n = m]) auto
qed

lemma markRunning_status:
  "statusOf (markRunning e ns) k
   = (if k = fst e then map_option (\<lambda>n. Running) (map_of ns k) else statusOf ns k)"
  by (simp add: markRunning_def statusOf_updateNode)

lemma markRunning_fold:
  "dagInv ns st \<Longrightarrow> (\<And>k. k \<in> fst ` set batch \<Longrightarrow> startable ns k) \<Longrightarrow>
   dagInv (fold markRunning batch ns) st
   \<and> (\<forall>k \<in> fst ` set batch. statusOf (fold markRunning batch ns) k = Some Running)"
proof (induction batch arbitrary: ns)
  case Nil
  then show ?case by simp
next
  case (Cons e batch)
  have st1: "startable ns (fst e)" using Cons.prems(2) by simp
  have inv1: "dagInv (markRunning e ns) st" using Cons.prems(1) st1 by (rule markRunning_step)
  have rest: "\<And>k. k \<in> fst ` set batch \<Longrightarrow> startable (markRunning e ns) k"
  proof -
    fix k assume "k \<in> fst ` set batch"
    then have sk: "startable ns k" using Cons.prems(2) by simp
    then obtain z where z: "map_of ns k = Some z" by (auto simp: startable_def statusOf_def)
    show "startable (markRunning e ns) k"
    proof (cases "k = fst e")
      case True
      with z show ?thesis by (simp add: startable_def markRunning_status)
    next
      case False
      with sk show ?thesis by (simp add: startable_def markRunning_status)
    qed
  qed
  from Cons.IH[OF inv1 rest] have ih: "dagInv (fold markRunning batch (markRunning e ns)) st"
    "\<forall>k \<in> fst ` set batch. statusOf (fold markRunning batch (markRunning e ns)) k = Some Running"
    by blast+
  have keep: "\<And>ns' k. statusOf ns' k = Some Running \<Longrightarrow> statusOf (fold markRunning batch ns') k = Some Running"
  proof -
    fix ns' k show "statusOf ns' k = Some Running \<Longrightarrow> statusOf (fold markRunning batch ns') k = Some Running"
    proof (induction batch arbitrary: ns')
      case Nil
      then show ?case by simp
    next
      case (Cons a batch)
      from Cons.prems obtain z where "map_of ns' k = Some z" by (auto simp: statusOf_def)
      with Cons.prems have "statusOf (markRunning a ns') k = Some Running"
        by (auto simp: markRunning_status)
      then show ?case using Cons.IH by simp
    qed
  qed
  from st1 obtain z where "map_of ns (fst e) = Some z" by (auto simp: startable_def statusOf_def)
  then have "statusOf (markRunning e ns) (fst e) = Some Running"
    by (simp add: markRunning_status)
  then have "statusOf (fold markRunning batch (markRunning e ns)) (fst e) = Some Running" by (rule keep)
  with ih show ?case by simp
qed

lemma processResult_inv:
  assumes inv: "dagInv (nodes s) (started s)"
    and run: "statusOf (nodes s) k = Some Running"
  shows "dagInv (nodes (processResult env (k, res) s)) (started (processResult env (k, res) s))
         \<and> (\<forall>x. x \<noteq> k \<longrightarrow> statusOf (nodes (processResult env (k, res) s)) x = statusOf (nodes s) x)"
proof -
  from run obtain node where node: "map_of (nodes s) k = Some node" "DagNode.status node = Running"
    by (auto simp: statusOf_def)
  obtain node' rs' clk' where p: "processNode env res (node, allResults s, clock s) = (node', rs', clk')"
    by (cases "processNode env res (node, allResults s, clock s)")
  from processNode_frame[OF p] have fr: "DagNode.dependsOn node' = DagNode.dependsOn node"
      "DagNode.task node' = DagNode.task node" by simp_all
  have eq: "processResult env (k, res) s
            = s\<lparr>nodes := updateNode k (\<lambda>n. node') (nodes s), allResults := rs', clock := clk'\<rparr>"
    using node p by (simp add: processResult_def)
  have "\<not> idle node" using node(2) by (simp add: idle_def)
  with inv node(1) have deps: "allDepsComplete (nodes s) node" by (rule active_deps)
  have "dagInv (updateNode k (\<lambda>n. node') (nodes s)) (started s)"
    using inv node(1)
  proof (rule dagInv_updateNode)
    show "DagNode.status node = Completed \<Longrightarrow> DagNode.status node' = Completed"
      using node(2) by simp
    show "DagNode.dependsOn node' = DagNode.dependsOn node" by (rule fr(1))
    show "TeamTask.id' (DagNode.task node') = TeamTask.id' (DagNode.task node)" by (simp add: fr(2))
    show "allDepsComplete (nodes s) node \<or> (idle node' \<and> k \<notin> set (started s))" using deps by simp
  qed
  then show ?thesis unfolding eq by (simp add: statusOf_updateNode)
qed

lemma started_processResult: "started (processResult env tr s) = started s"
  by (cases tr) (auto simp: processResult_def split: option.splits prod.splits)

lemma processResult_fold_inv:
  "dagInv (nodes s) (started s) \<Longrightarrow> distinct (map fst brs) \<Longrightarrow>
   (\<And>k. k \<in> fst ` set brs \<Longrightarrow> statusOf (nodes s) k = Some Running) \<Longrightarrow>
   dagInv (nodes (fold (processResult env) brs s)) (started (fold (processResult env) brs s))"
proof (induction brs arbitrary: s)
  case Nil
  then show ?case by simp
next
  case (Cons br brs)
  obtain k res where br: "br = (k, res)" by (cases br)
  have run: "statusOf (nodes s) k = Some Running" using Cons.prems(3) br by simp
  note step = processResult_inv[OF Cons.prems(1) run, of env res]
  have rest: "\<And>x. x \<in> fst ` set brs \<Longrightarrow> statusOf (nodes (processResult env (k, res) s)) x = Some Running"
  proof -
    fix x assume x: "x \<in> fst ` set brs"
    then have "x \<noteq> k" using Cons.prems(2) br by auto
    moreover have "statusOf (nodes s) x = Some Running" using Cons.prems(3) x by simp
    ultimately show "statusOf (nodes (processResult env (k, res) s)) x = Some Running"
      using step by simp
  qed
  have "distinct (map fst brs)" using Cons.prems(2) by simp
  from Cons.IH[OF step[THEN conjunct1] this rest] show ?case by (simp add: br)
qed

lemma keys_runBatchAgents: "map fst (runBatchAgents env clk ids) = ids"
  by (induction ids arbitrary: clk) auto

lemma set_sliceTo: "set (sliceTo xs k) \<subseteq> set xs"
  by (auto simp: sliceTo_def dest: in_set_takeD)

lemma distinct_keys_sliceTo: "distinct (map fst xs) \<Longrightarrow> distinct (map fst (sliceTo xs k))"
  by (simp add: sliceTo_def take_map[symmetric] distinct_take)

lemma runBatch_inv:
  assumes inv: "dagInv (nodes s) (started s)"
  shows "dagInv (nodes (snd (runBatch env s))) (started (snd (runBatch env s)))"
proof (cases "getReadyTasks (nodes s) = []")
  case True
  then show ?thesis using inv by (simp add: runBatch_def finalReturn_def)
next
  case False
  let ?batch = "sliceTo (getReadyTasks (nodes s)) (DagEnv.maxConcurrency env)"
  let ?nodes1 = "fold markRunning ?batch (nodes s)"
  let ?ids = "map (\<lambda>(k, n). TeamTask.id' (DagNode.task n)) ?batch"
  let ?s1 = "s\<lparr>nodes := ?nodes1, clock := clock s + length ?batch, started := started s @ ?ids\<rparr>"
  let ?brs = "runBatchAgents env (clock s) ?ids"
  let ?s2 = "fold (processResult env) ?brs ?s1"
  have dist: "distinct (map fst (nodes s))" using inv by (simp add: dagInv_def)
  have sub: "set ?batch \<subseteq> set (getReadyTasks (nodes s))" by (rule set_sliceTo)
  have ready: "\<And>k n. (k, n) \<in> set ?batch \<Longrightarrow> (k, n) \<in> set (nodes s) \<and> DagNode.status n = Ready"
    using sub by (auto simp: getReadyTasks_def)
  have look: "\<And>k n. (k, n) \<in> set ?batch \<Longrightarrow> map_of (nodes s) k = Some n"
    using ready dist by simp
  have ids: "?ids = map fst ?batch"
  proof (rule map_cong[OF refl])
    fix e assume e: "e \<in> set ?batch"
    obtain k n where kn: "e = (k, n)" by (cases e)
    with e look have "map_of (nodes s) k = Some n" by simp
    with inv have "nodeOk (nodes s) (started s) (k, n)" by (rule dagInv_entry)
    with kn show "(case e of (k, n) \<Rightarrow> TeamTask.id' (DagNode.task n)) = fst e" by (simp add: nodeOk_def)
  qed
  have dk: "distinct (map fst ?batch)"
    using dist by (intro distinct_keys_sliceTo) (simp add: getReadyTasks_def distinct_map_filter)
  have startable: "\<And>k. k \<in> fst ` set ?batch \<Longrightarrow> startable (nodes s) k"
  proof -
    fix k assume "k \<in> fst ` set ?batch"
    then obtain n where "(k, n) \<in> set ?batch" by auto
    with look ready show "startable (nodes s) k" by (auto simp: startable_def statusOf_def)
  qed
  from markRunning_fold[OF inv startable] have m: "dagInv ?nodes1 (started s)"
      "\<forall>k \<in> fst ` set ?batch. statusOf ?nodes1 k = Some Running" by blast+
  have inv1: "dagInv ?nodes1 (started s @ ?ids)"
  proof (rule dagInv_started[OF m(1)])
    fix k n assume k: "k \<in> set ?ids" and n: "map_of ?nodes1 k = Some n"
    from k ids have "k \<in> fst ` set ?batch" by simp
    with m(2) have "statusOf ?nodes1 k = Some Running" by blast
    with n have "\<not> idle n" by (simp add: statusOf_def idle_def)
    with m(1) n show "allDepsComplete ?nodes1 n" by (rule active_deps)
  qed
  have inv2: "dagInv (nodes ?s2) (started ?s2)"
  proof (rule processResult_fold_inv)
    show "dagInv (nodes ?s1) (started ?s1)" using inv1 by simp
    show "distinct (map fst ?brs)" unfolding keys_runBatchAgents ids by (rule dk)
    fix k assume "k \<in> fst ` set ?brs"
    then have "k \<in> set (map fst ?brs)" by simp
    then have "k \<in> fst ` set ?batch" using ids by (simp add: keys_runBatchAgents)
    with m(2) show "statusOf (nodes ?s1) k = Some Running" by auto
  qed
  have "snd (runBatch env s) = ?s2\<lparr>nodes := updateReadyState (nodes ?s2)\<rparr>"
    using False by (simp add: runBatch_def Let_def markRunning_fold_eq)
  then show ?thesis using updateReadyState_inv[OF inv2] by simp
qed

lemma getPendingApproval_Some:
  "getPendingApproval ns = Some (k, n) \<Longrightarrow> (k, n) \<in> set ns \<and> DagNode.status n = AwaitingApproval"
  by (auto simp: getPendingApproval_def find_Some_iff in_set_conv_nth)

lemma approve_inv:
  assumes inv: "dagInv (nodes s) (started s)"
    and look: "map_of (nodes s) k = Some n" and st: "DagNode.status n = AwaitingApproval"
  shows "dagInv (nodes (snd (approve k s))) (started (snd (approve k s)))"
proof -
  have "\<not> idle n" using st by (simp add: idle_def)
  with inv look have "allDepsComplete (nodes s) n" by (rule active_deps)
  with inv look have "dagInv (updateNode k (\<lambda>n. n\<lparr>DagNode.status := Completed\<rparr>) (nodes s)) (started s)"
    by (intro dagInv_updateNode[where n = n]) auto
  then show ?thesis by (simp add: approve_def updateReadyState_inv)
qed

lemma id_withFeedback: "TeamTask.id' (withFeedback fb t) = TeamTask.id' t"
  by (simp add: withFeedback_def split: option.splits)

lemma reject_inv:
  assumes inv: "dagInv ns st"
    and look: "map_of ns k = Some n" and st: "DagNode.status n = AwaitingApproval"
  shows "dagInv (updateNode k (\<lambda>n. n\<lparr>DagNode.status := Ready,
                                       DagNode.task := withFeedback fb (DagNode.task n)\<rparr>) ns) st"
proof -
  have "\<not> idle n" using st by (simp add: idle_def)
  with inv look have "allDepsComplete ns n" by (rule active_deps)
  with inv look st show ?thesis
    by (intro dagInv_updateNode[where n = n]) (auto simp: id_withFeedback)
qed

lemma dagIteration_inv:
  assumes inv: "dagInv (nodes s) (started s)"
  shows "dagInv (nodes (snd (dagIteration env s))) (started (snd (dagIteration env s)))"
proof (cases "isDagComplete (nodes s) \<or> signalAborted env (clock s)")
  case True
  then show ?thesis using inv by (auto simp: dagIteration_def finalReturn_def)
next
  case False
  let ?s0 = "s\<lparr>clock := clock s + 1\<rparr>"
  have inv0: "dagInv (nodes ?s0) (started ?s0)" using inv by simp
  have dist: "distinct (map fst (nodes s))" using inv by (simp add: dagInv_def)
  show ?thesis
  proof (cases "getPendingApproval (nodes s)")
    case None
    with False show ?thesis using runBatch_inv[OF inv0, of env] by (simp add: dagIteration_def)
  next
    case (Some e)
    obtain k n where e: "e = (k, n)" by (cases e)
    from getPendingApproval_Some[OF Some[unfolded e]] dist
    have look: "map_of (nodes s) k = Some n" and st: "DagNode.status n = AwaitingApproval" by simp_all
    show ?thesis
    proof (cases "onApprovalNeeded env")
      case None
      have "dagInv (nodes (snd (approve k ?s0))) (started (snd (approve k ?s0)))"
        using inv0 look st by (intro approve_inv) simp_all
      with False Some e None show ?thesis by (simp add: dagIteration_def)
    next
      case (Some callback)
      let ?plan = "case DagNode.result n of None \<Rightarrow> [] | Some r \<Rightarrow> TaskResult.output r"
      let ?d = "callback (clock ?s0) (TeamTask.id' (DagNode.task n)) ?plan"
      let ?s1 = "?s0\<lparr>clock := clock ?s0 + 1\<rparr>"
      have inv1: "dagInv (nodes ?s1) (started ?s1)" using inv by simp
      show ?thesis
      proof (cases "fst ?d")
        case True
        have "dagInv (nodes (snd (approve k ?s1))) (started (snd (approve k ?s1)))"
          using inv1 look st by (intro approve_inv) simp_all
        with False \<open>getPendingApproval (nodes s) = Some e\<close> e Some True show ?thesis
          by (simp add: dagIteration_def Let_def)
      next
        case rej: False
        let ?s2 = "?s1\<lparr>nodes := updateNode k (\<lambda>n. n\<lparr>DagNode.status := Ready,
                        DagNode.task := withFeedback (snd ?d) (DagNode.task n)\<rparr>) (nodes ?s1)\<rparr>"
        have "dagInv (nodes ?s2) (started ?s2)"
          using reject_inv[OF inv look st, of "snd ?d"] by simp
        then have "dagInv (nodes (snd (runBatch env ?s2))) (started (snd (runBatch env ?s2)))"
          by (rule runBatch_inv)
        with False \<open>getPendingApproval (nodes s) = Some e\<close> e Some rej show ?thesis
          by (simp add: dagIteration_def Let_def)
      qed
    qed
  qed
qed

lemma runDag_inv:
  "dagInv (nodes s) (started s) \<Longrightarrow>
   dagInv (nodes (snd (runDag env fuel s))) (started (snd (runDag env fuel s)))"
proof (induction fuel arbitrary: s)
  case 0
  then show ?case by simp
next
  case (Suc fuel)
  obtain x t where it: "dagIteration env s = (x, t)" by (cases "dagIteration env s")
  from dagIteration_inv[OF Suc.prems, of env] it have inv: "dagInv (nodes t) (started t)" by simp
  show ?case
  proof (cases x)
    case None
    with it Suc.IH[OF inv] show ?thesis by simp
  next
    case (Some r)
    with it inv show ?thesis by simp
  qed
qed

lemma dagInv_initial:
  assumes "distinct (map fst ns)"
    and "list_all (\<lambda>(k, n). TeamTask.id' (DagNode.task n) = k \<and> DagNode.status n = Pending) ns"
  shows "dagInv (updateReadyState ns) []"
proof -
  have "dagInv ns []"
    using assms by (auto simp: dagInv_def nodeOk_def idle_def list_all_iff)
  then show ?thesis by (rule updateReadyState_inv)
qed

lemma dagInv_blocked_dependent:
  assumes "dagInv ns st" and "map_of ns k = Some n" and "d \<in> set (DagNode.dependsOn n)"
    and "statusOf ns d = Some Failed \<or> statusOf ns d = Some Blocked"
  shows "k \<notin> set st \<and> (DagNode.status n = Pending \<or> DagNode.status n = Blocked)"
proof -
  have "\<not> allDepsComplete ns n"
    using assms(3,4) unfolding allDepsComplete_def list_all_iff by fastforce
  with dagInv_entry[OF assms(1,2)] show ?thesis by (auto simp: nodeOk_def idle_def)
qed

subsection \<open>Failed dependencies\<close>

lemma updateReadyState_fold: "updateReadyState ns = fold readyStep (map fst ns) ns"
proof -
  have "(\<lambda>k ns. updateNode k (readiness ns) ns) = readyStep" by (simp add: readyStep_def fun_eq_iff)
  then show ?thesis by (simp add: updateReadyState_def)
qed

lemma status_readyStep:
  "statusOf ns x = Some st \<Longrightarrow> st \<noteq> Pending \<Longrightarrow> statusOf (readyStep j ns) x = Some st"
  by (auto simp: readyStep_def statusOf_def map_of_updateNode readiness_def)

lemma waitsOnFailed_readyStep:
  assumes "waitsOnFailed ns k d"
  shows "waitsOnFailed (readyStep j ns) k d"
proof -
  from assms obtain m where m: "statusOf ns d = Some Failed" "map_of ns k = Some m"
      "d \<in> set (DagNode.dependsOn m)" "idle m"
    by (auto simp: waitsOnFailed_def split: option.splits)
  have f: "statusOf (readyStep j ns) d = Some Failed" using m(1) by (rule status_readyStep) simp
  have af: "anyDepFailed ns m" using m(1,3) by (auto simp: anyDepFailed_def list_ex_iff)
  show ?thesis
  proof (cases "j = k")
    case True
    then have "map_of (readyStep j ns) k = Some (readiness ns m)"
      using m(2) by (simp add: readyStep_def map_of_updateNode)
    moreover have "idle (readiness ns m)" using m(4) af by (auto simp: readiness_def idle_def)
    moreover have "DagNode.dependsOn (readiness ns m) = DagNode.dependsOn m" by (simp add: readiness_def)
    ultimately show ?thesis using f m(3) by (simp add: waitsOnFailed_def)
  next
    case False
    then have "map_of (readyStep j ns) k = Some m"
      using m(2) by (simp add: readyStep_def map_of_updateNode)
    then show ?thesis using f m(3,4) by (simp add: waitsOnFailed_def)
  qed
qed

lemma waitsOnFailed_hit:
  assumes "waitsOnFailed ns k d"
  shows "statusOf (readyStep k ns) k = Some Blocked"
proof -
  from assms obtain m where m: "statusOf ns d = Some Failed" "map_of ns k = Some m"
      "d \<in> set (DagNode.dependsOn m)" "idle m"
    by (auto simp: waitsOnFailed_def split: option.splits)
  have af: "anyDepFailed ns m" using m(1,3) by (auto simp: anyDepFailed_def list_ex_iff)
  then have "DagNode.status (readiness ns m) = Blocked"
    using m(4) by (auto simp: readiness_def idle_def)
  then show ?thesis using m(2) by (simp add: readyStep_def statusOf_updateNode)
qed

lemma fold_readyStep_blocked:
  "statusOf ns k = Some Blocked \<Longrightarrow> statusOf (fold readyStep ks ns) k = Some Blocked"
  by (induction ks arbitrary: ns) (auto simp: status_readyStep)

lemma fold_readyStep_hit:
  "waitsOnFailed ns k d \<Longrightarrow> k \<in> set ks \<Longrightarrow> statusOf (fold readyStep ks ns) k = Some Blocked"
proof (induction ks arbitrary: ns)
  case Nil
  then show ?case by simp
next
  case (Cons j ks)
  show ?case
  proof (cases "j = k")
    case True
    with Cons.prems(1) have "statusOf (readyStep j ns) k = Some Blocked" by (simp add: waitsOnFailed_hit)
    then show ?thesis by (simp add: fold_readyStep_blocked)
  next
    case False
    with Cons.prems(2) have "k \<in> set ks" by simp
    with Cons.IH[OF waitsOnFailed_readyStep[OF Cons.prems(1)]] show ?thesis by simp
  qed
qed

lemma updateReadyState_blocks:
  assumes "map_of ns k = Some n" and "DagNode.status n = Pending"
    and "d \<in> set (DagNode.dependsOn n)" and "statusOf ns d = Some Failed"
  shows "statusOf (updateReadyState ns) k = Some Blocked"
proof -
  have "waitsOnFailed ns k d" using assms by (simp add: waitsOnFailed_def idle_def)
  moreover have "k \<in> set (map fst ns)" using assms(1) by (metis map_of_eq_None_iff option.distinct(1) set_map)
  ultimately show ?thesis unfolding updateReadyState_fold by (rule fold_readyStep_hit)
qed

text \<open>
  A pending node that has a blocked dependency and no failed one is left as it is: the
  update looks for failed dependencies, and for dependencies that are all completed.
\<close>

lemma not_failed_readyStep:
  "statusOf ns x \<noteq> Some Failed \<Longrightarrow> statusOf (readyStep j ns) x \<noteq> Some Failed"
  by (auto simp: readyStep_def statusOf_def map_of_updateNode readiness_def split: option.splits)

lemma readyStep_keeps_pending:
  assumes "map_of ns k = Some m" and "DagNode.status m = Pending"
    and "d \<in> set (DagNode.dependsOn m)" and "statusOf ns d = Some Blocked"
    and "\<forall>x \<in> set (DagNode.dependsOn m). statusOf ns x \<noteq> Some Failed"
  shows "map_of (readyStep j ns) k = Some m"
proof -
  have "\<not> anyDepFailed ns m" using assms(5) by (simp add: anyDepFailed_def list_ex_iff)
  moreover have "\<not> allDepsComplete ns m" using assms(3,4) by (fastforce simp: allDepsComplete_def list_all_iff)
  ultimately have "readiness ns m = m" by (simp add: readiness_def)
  then show ?thesis using assms(1) by (auto simp: readyStep_def map_of_updateNode)
qed

lemma fold_readyStep_keeps_pending:
  "map_of ns k = Some m \<Longrightarrow> DagNode.status m = Pending \<Longrightarrow> d \<in> set (DagNode.dependsOn m)
   \<Longrightarrow> statusOf ns d = Some Blocked
   \<Longrightarrow> \<forall>x \<in> set (DagNode.dependsOn m). statusOf ns x \<noteq> Some Failed
   \<Longrightarrow> map_of (fold readyStep ks ns) k = Some m"
proof (induction ks arbitrary: ns)
  case Nil
  then show ?case by simp
next
  case (Cons j ks)
  have a: "map_of (readyStep j ns) k = Some m"
    using Cons.prems by (rule readyStep_keeps_pending)
  have b: "statusOf (readyStep j ns) d = Some Blocked"
    using Cons.prems(4) by (rule status_readyStep) simp
  have c: "\<forall>x \<in> set (DagNode.dependsOn m). statusOf (readyStep j ns) x \<noteq> Some Failed"
    using Cons.prems(5) by (simp add: not_failed_readyStep)
  from Cons.IH[OF a Cons.prems(2,3) b c] show ?case by simp
qed

lemma updateReadyState_keeps_pending:
  assumes "map_of ns k = Some n" and "DagNode.status n = Pending"
    and "d \<in> set (DagNode.dependsOn n)" and "statusOf ns d = Some Blocked"
    and "\<forall>x \<in> set (DagNode.dependsOn n). statusOf ns x \<noteq> Some Failed"
  shows "statusOf (updateReadyState ns) k = Some Pending"
proof -
  have "map_of (fold readyStep (map fst ns) ns) k = Some n"
    using assms by (rule fold_readyStep_keeps_pending)
  then show ?thesis using assms(2) by (simp add: updateReadyState_fold statusOf_def)
qed

text \<open>
  C1, as the code has it. The readiness update sets a pending node to blocked when one of
  its direct dependencies is failed, and leaves a pending node pending when one of its
  direct dependencies is blocked and none is failed. Through a run that starts from the
  nodes as \<^verbatim>\<open>buildDag\<close> makes them (each under its id, all pending, the readiness update
  applied), with any agents, any abort signal and any approval callback, and after any
  number of passes of the loop: a node with a direct dependency that is failed or blocked
  has never been marked running, and is pending or blocked.
\<close>

theorem failed_dependency_blocks:
  "(map_of ns k = Some n \<and> DagNode.status n = Pending \<and> d \<in> set (DagNode.dependsOn n)
      \<and> statusOf ns d = Some Failed
    \<longrightarrow> statusOf (updateReadyState ns) k = Some Blocked)
   \<and> (map_of ns1 k1 = Some n1 \<and> DagNode.status n1 = Pending \<and> d1 \<in> set (DagNode.dependsOn n1)
      \<and> statusOf ns1 d1 = Some Blocked
      \<and> (\<forall>x \<in> set (DagNode.dependsOn n1). statusOf ns1 x \<noteq> Some Failed)
    \<longrightarrow> statusOf (updateReadyState ns1) k1 = Some Pending)
   \<and> (distinct (map fst ns0)
      \<and> list_all (\<lambda>(k, n). TeamTask.id' (DagNode.task n) = k \<and> DagNode.status n = Pending) ns0
      \<and> map_of (nodes (snd (executeDag env fuel (updateReadyState ns0)))) k' = Some n'
      \<and> d' \<in> set (DagNode.dependsOn n')
      \<and> (statusOf (nodes (snd (executeDag env fuel (updateReadyState ns0)))) d' = Some Failed
         \<or> statusOf (nodes (snd (executeDag env fuel (updateReadyState ns0)))) d' = Some Blocked)
    \<longrightarrow> k' \<notin> set (started (snd (executeDag env fuel (updateReadyState ns0))))
        \<and> (DagNode.status n' = Pending \<or> DagNode.status n' = Blocked))"
proof -
  have p1: "map_of ns k = Some n \<and> DagNode.status n = Pending \<and> d \<in> set (DagNode.dependsOn n)
      \<and> statusOf ns d = Some Failed
    \<longrightarrow> statusOf (updateReadyState ns) k = Some Blocked"
    using updateReadyState_blocks by blast
  have p2: "map_of ns1 k1 = Some n1 \<and> DagNode.status n1 = Pending \<and> d1 \<in> set (DagNode.dependsOn n1)
      \<and> statusOf ns1 d1 = Some Blocked
      \<and> (\<forall>x \<in> set (DagNode.dependsOn n1). statusOf ns1 x \<noteq> Some Failed)
    \<longrightarrow> statusOf (updateReadyState ns1) k1 = Some Pending"
    using updateReadyState_keeps_pending[of ns1 k1 n1 d1] by blast
  let ?s = "snd (executeDag env fuel (updateReadyState ns0))"
  have p3: "distinct (map fst ns0)
      \<and> list_all (\<lambda>(k, n). TeamTask.id' (DagNode.task n) = k \<and> DagNode.status n = Pending) ns0
      \<and> map_of (nodes ?s) k' = Some n'
      \<and> d' \<in> set (DagNode.dependsOn n')
      \<and> (statusOf (nodes ?s) d' = Some Failed \<or> statusOf (nodes ?s) d' = Some Blocked)
    \<longrightarrow> k' \<notin> set (started ?s) \<and> (DagNode.status n' = Pending \<or> DagNode.status n' = Blocked)"
  proof (rule impI)
    assume h: "distinct (map fst ns0)
      \<and> list_all (\<lambda>(k, n). TeamTask.id' (DagNode.task n) = k \<and> DagNode.status n = Pending) ns0
      \<and> map_of (nodes ?s) k' = Some n'
      \<and> d' \<in> set (DagNode.dependsOn n')
      \<and> (statusOf (nodes ?s) d' = Some Failed \<or> statusOf (nodes ?s) d' = Some Blocked)"
    then have "dagInv (updateReadyState ns0) []" by (intro dagInv_initial) auto
    then have "dagInv (nodes (initialState (updateReadyState ns0))) (started (initialState (updateReadyState ns0)))"
      by (simp add: initialState_def)
    then have "dagInv (nodes ?s) (started ?s)" unfolding executeDag_def by (rule runDag_inv)
    with h show "k' \<notin> set (started ?s) \<and> (DagNode.status n' = Pending \<or> DagNode.status n' = Blocked)"
      using dagInv_blocked_dependent by blast
  qed
  from p1 p2 p3 show ?thesis by (intro conjI)
qed

text \<open>The equations that evaluate a run on concrete inputs.\<close>

lemma reviewLoop_unfold:
  "reviewLoop env maxIter s =
     (if fst (reviewIteration env maxIter s) = None
      then reviewLoop env maxIter (snd (reviewIteration env maxIter s))
      else (case fst (reviewIteration env maxIter s) of
              Some e \<Rightarrow> (e, snd (reviewIteration env maxIter s))
            | None \<Rightarrow> (LoopEnded, s)))"
  by (subst reviewLoop.simps) (auto split: prod.splits option.splits)

lemmas dag_eval = executeDag_def initialState_def dagIteration_def isDagComplete_def
  getPendingApproval_def runBatch_def getReadyTasks_def sliceTo_def updateNode_def
  processResult_def processNode_def runReviewCycle_def reviewLoop_unfold reviewIteration_def
  updateReadyState_def readiness_def allDepsComplete_def anyDepFailed_def statusOf_def
  finalReturn_def runFailed_def DEFAULT_MAX_ITERATIONS_def newNode_def plainTask_def
  reviewedTask_def agentResult_def agentsReturning_def js_def Let_def numeral_2_eq_2

lemma C1_final_statuses:
  "map (\<lambda>(k, n). (k, DagNode.status n, DagNode.dependsOn n)) (nodes C1_final)
     = [(js ''a'', Failed, []), (js ''b'', Blocked, [js ''a'']), (js ''c'', Pending, [js ''b''])]
   \<and> started C1_final = [js ''a'']"
  by (simp add: C1_final_def C1_nodes_def dag_eval)

lemma C1_final_c:
  "\<exists>n. map_of (nodes C1_final) (js ''c'') = Some n \<and> DagNode.dependsOn n = [js ''b'']
        \<and> DagNode.status n = Pending"
  by (simp add: C1_final_def C1_nodes_def dag_eval)

lemma C1_final_b: "statusOf (nodes C1_final) (js ''b'') = Some Blocked"
  by (simp add: C1_final_def C1_nodes_def dag_eval)

lemma C1_nodes_fresh:
  "distinct (map fst C1_nodes)
   \<and> list_all (\<lambda>(k, n). TeamTask.id' (DagNode.task n) = k \<and> DagNode.status n = Pending) C1_nodes"
  by (simp add: C1_nodes_def newNode_def plainTask_def js_def)

lemma C1_failed_b:
  "\<exists>n. map_of C1_failed (js ''b'') = Some n \<and> DagNode.status n = Pending
        \<and> js ''a'' \<in> set (DagNode.dependsOn n) \<and> statusOf C1_failed (js ''a'') = Some Failed"
  by (simp add: C1_failed_def C1_nodes_def newNode_def plainTask_def updateNode_def statusOf_def js_def)

text \<open>
  The theorem on the chain \<open>a\<close>, \<open>b\<close>, \<open>c\<close>: with \<open>a\<close> failed the update blocks \<open>b\<close>; in
  the run in which the agent of \<open>a\<close> fails, the update leaves \<open>c\<close> pending behind the
  blocked \<open>b\<close>, and \<open>c\<close> is never started.
\<close>

theorem failed_dependency_witness:
  "statusOf (updateReadyState C1_failed) (js ''b'') = Some Blocked
   \<and> statusOf (updateReadyState (nodes C1_final)) (js ''c'') = Some Pending
   \<and> js ''c'' \<notin> set (started C1_final)
   \<and> statusOf (nodes C1_final) (js ''c'') = Some Pending"
proof -
  from C1_failed_b obtain n where n: "map_of C1_failed (js ''b'') = Some n" "DagNode.status n = Pending"
      "js ''a'' \<in> set (DagNode.dependsOn n)" "statusOf C1_failed (js ''a'') = Some Failed" by blast
  from C1_final_c obtain m where m: "map_of (nodes C1_final) (js ''c'') = Some m"
      "DagNode.dependsOn m = [js ''b'']" "DagNode.status m = Pending" by blast
  note T = failed_dependency_blocks[of C1_failed "js ''b''" n "js ''a''"
             "nodes C1_final" "js ''c''" m "js ''b''" C1_nodes
             "agentsReturning (agentResult (js ''boom'') 1)" 2 "js ''c''" m "js ''b''"]
  from T n have a: "statusOf (updateReadyState C1_failed) (js ''b'') = Some Blocked" by blast
  have in_m: "js ''b'' \<in> set (DagNode.dependsOn m)" using m(2) by simp
  have nf: "\<forall>x \<in> set (DagNode.dependsOn m). statusOf (nodes C1_final) x \<noteq> Some Failed"
    using m(2) C1_final_b by simp
  from T m(1,3) in_m C1_final_b nf
  have p: "statusOf (updateReadyState (nodes C1_final)) (js ''c'') = Some Pending" by blast
  from T C1_nodes_fresh m(1) in_m C1_final_b have b: "js ''c'' \<notin> set (started C1_final)"
    unfolding C1_final_def by blast
  from m have c: "statusOf (nodes C1_final) (js ''c'') = Some Pending" by (simp add: statusOf_def)
  from a p b c show ?thesis by blast
qed

text \<open>
  C1 as stated fails. At the end of that run \<open>b\<close> is blocked and \<open>c\<close> depends on \<open>b\<close>, yet
  the readiness update leaves \<open>c\<close> pending: it looks for failed dependencies only.
\<close>

theorem blocked_dependency_stays_pending:
  "statusOf (nodes C1_final) (js ''b'') = Some Blocked
   \<and> map_option DagNode.dependsOn (map_of (nodes C1_final) (js ''c'')) = Some [js ''b'']
   \<and> statusOf (updateReadyState (nodes C1_final)) (js ''c'') = Some Pending"
  by (simp add: C1_final_def C1_nodes_def dag_eval)

subsection \<open>Reviews with no iteration\<close>

text \<open>
  C2 on a task whose review has \<^verbatim>\<open>maxIterations: 0\<close>. The worker succeeds, the loop of
  \<^verbatim>\<open>runReviewCycle\<close> is left at once by its condition (1 is not at most 0), and
  \<^verbatim>\<open>executeDag\<close> returns with the node still running and its review history empty: the
  node is not completed.
\<close>

theorem review_zero_iterations_stays_running:
  "fst (C2_run (Some 0))
     = Some \<lparr>DagExecutionResult.results = [agentResult (js ''APPROVED'') 0], aborted = False\<rparr>
   \<and> map (\<lambda>(k, n). (k, DagNode.status n, DagNode.reviewHistory n, DagNode.iteration n))
         (nodes (snd (C2_run (Some 0))))
     = [(js ''t'', Running, Some [], Some 1)]"
  by (simp add: C2_run_def dag_eval)

text \<open>
  With at least one iteration the claim holds (\<open>runReviewCycle_settles\<close>); here on a
  review with the default of three iterations whose reviewer approves at once.
\<close>

lemma parse_APPROVED:
  "parseReviewDecision asciiLower (js ''APPROVED'') = \<lparr>Decision.approved = True, feedback = []\<rparr>"
  by (simp add: parse_eval)

lemma reviewIteration_approving:
  "fst (reviewIteration (agentsReturning (agentResult (js ''APPROVED'') 0)) 3 (reviewStart None)) = Some ReviewDone
   \<and> DagNode.status (fst (snd (reviewIteration (agentsReturning (agentResult (js ''APPROVED'') 0)) 3 (reviewStart None))))
       = Completed
   \<and> map_option (map ReviewEntry.approved)
        (DagNode.reviewHistory (fst (snd (reviewIteration (agentsReturning (agentResult (js ''APPROVED'') 0)) 3 (reviewStart None)))))
       = Some [True]"
  by (simp add: reviewIteration_def reviewStart_def newNode_def reviewedTask_def agentsReturning_def
        agentResult_def runFailed_def parse_APPROVED[unfolded agentResult_def] Let_def)

lemma runReviewCycle_approving:
  "fst (runReviewCycle (agentsReturning (agentResult (js ''APPROVED'') 0))
          \<lparr>ReviewConfig.assignee = js ''critic'', task = None, maxIterations = None\<rparr> (reviewStart None))
     = ReviewDone
   \<and> reviewSettled 3 (fst (snd (runReviewCycle (agentsReturning (agentResult (js ''APPROVED'') 0))
          \<lparr>ReviewConfig.assignee = js ''critic'', task = None, maxIterations = None\<rparr> (reviewStart None))))"
proof -
  let ?env = "agentsReturning (agentResult (js ''APPROVED'') 0)"
  let ?rv = "\<lparr>ReviewConfig.assignee = js ''critic'', task = None, maxIterations = None\<rparr>"
  obtain x t where it: "reviewIteration ?env 3 (reviewStart None) = (x, t)"
    by (cases "reviewIteration ?env 3 (reviewStart None)")
  with reviewIteration_approving have x: "x = Some ReviewDone" by simp
  have loop: "reviewLoop ?env 3 (reviewStart None) = (ReviewDone, t)"
    by (subst reviewLoop.simps) (simp add: it x)
  obtain node rs clk where st: "reviewStart None = (node, rs, clk)" by (cases "reviewStart None")
  then have fields: "DagNode.iteration node = Some 1" "DagNode.reviewHistory node = Some []"
      "DagNode.iterationResults node = Some [agentResult (js ''draft'') 0]"
    by (auto simp: reviewStart_def)
  have run: "runReviewCycle ?env ?rv (node, rs, clk) = (ReviewDone, t)"
    using loop fields unfolding st by (simp add: runReviewCycle_def DEFAULT_MAX_ITERATIONS_def Let_def)
  have m: "(3::int) = (case ReviewConfig.maxIterations ?rv of None \<Rightarrow> DEFAULT_MAX_ITERATIONS | Some m \<Rightarrow> m)"
    by (simp add: DEFAULT_MAX_ITERATIONS_def)
  have "(1::int) \<le> 3" by simp
  from runReviewCycle_settles[OF this m fields run] have "reviewSettled 3 (fst t)" by simp
  with run show ?thesis by (simp add: st)
qed

end
